theory Spec2Isabelle
  imports Main
begin

section \<open>Python strings and their UTF-8 encoding\<close>

text \<open>
  The script \<^verbatim>\<open>scripts/generate-options.py\<close> measures every element by
  \<^verbatim>\<open>len(json.dumps(x, ensure_ascii=False).encode('utf-8'))\<close>. A Python \<^verbatim>\<open>str\<close> is a
  sequence of Unicode code points, so it is modelled as a list of code points; a
  \<^verbatim>\<open>bytes\<close> object is a list of byte values. Code points are below \<open>0x110000\<close> in
  Python; the model does not need that bound.
\<close>

type_synonym pystr = "nat list"
type_synonym pybytes = "nat list"

text \<open>An ASCII literal as a Python string.\<close>

definition py :: "string \<Rightarrow> pystr" where
  "py s = map of_char s"

text \<open>
  \<^verbatim>\<open>str.encode('utf-8')\<close> raises \<^verbatim>\<open>UnicodeEncodeError\<close> on a lone surrogate
  (\<open>U+D800\<close> to \<open>U+DFFF\<close>), which \<^verbatim>\<open>json.loads\<close> can produce from an escape such as
  \<^verbatim>\<open>"\ud800"\<close>. It is the only exception the chunking code can raise on a value that
  \<^verbatim>\<open>json.loads\<close> returned.
\<close>

datatype error = UnicodeEncodeError

definition is_surrogate :: "nat \<Rightarrow> bool" where
  "is_surrogate c = (55296 \<le> c \<and> c \<le> 57343)"

definition utf8_bytes :: "nat \<Rightarrow> pybytes" where
  "utf8_bytes c =
     (if c < 128 then [c]
      else if c < 2048 then [192 + c div 64, 128 + c mod 64]
      else if c < 65536 then [224 + c div 4096, 128 + (c div 64) mod 64, 128 + c mod 64]
      else [240 + c div 262144, 128 + (c div 4096) mod 64, 128 + (c div 64) mod 64,
            128 + c mod 64])"

definition str_encode :: "pystr \<Rightarrow> error + pybytes" where
  "str_encode s =
     (if list_ex is_surrogate s then Inl UnicodeEncodeError
      else Inr (concat (map utf8_bytes s)))"


section \<open>JSON values and \<^verbatim>\<open>json.dumps\<close>\<close>

text \<open>
  The values \<^verbatim>\<open>json.loads\<close> returns: \<^verbatim>\<open>None\<close>, \<^verbatim>\<open>bool\<close>, \<^verbatim>\<open>int\<close> (unbounded),
  \<^verbatim>\<open>float\<close>, \<^verbatim>\<open>str\<close>, \<^verbatim>\<open>list\<close> and \<^verbatim>\<open>dict\<close> with \<^verbatim>\<open>str\<close> keys. A dict keeps its
  insertion order, so it is an association list; its keys are distinct, which the
  theorems about mappings assume as \<open>distinct (map fst kvs)\<close>. The script never
  computes with a float, it only prints it: a float is carried as the text that
  \<^verbatim>\<open>float.__repr__\<close> (or \<^verbatim>\<open>NaN\<close>, \<^verbatim>\<open>Infinity\<close>, \<^verbatim>\<open>-Infinity\<close>) gives for it.
\<close>

datatype json =
    JNull
  | JBool bool
  | JInt int
  | JFloat pystr
  | JStr pystr
  | JList "json list"
  | JDict "(pystr \<times> json) list"

text \<open>\<^verbatim>\<open>int.__repr__\<close>: decimal digits, with a minus sign for a negative number.\<close>

function nat_repr :: "nat \<Rightarrow> pystr" where
  "nat_repr n = (if n < 10 then [48 + n] else nat_repr (n div 10) @ [48 + n mod 10])"
  by pat_completeness auto
termination
  by (relation "measure id") auto

declare nat_repr.simps [simp del]

definition int_repr :: "int \<Rightarrow> pystr" where
  "int_repr i = (if i < 0 then 45 # nat_repr (nat (- i)) else nat_repr (nat i))"

text \<open>
  \<^verbatim>\<open>json.encoder.encode_basestring\<close>, the string encoder chosen by
  \<^verbatim>\<open>ensure_ascii=False\<close>: the string between double quotes, with backslash, double
  quote and the control characters below \<open>0x20\<close> escaped; every other code point is
  left as it is.
\<close>

definition hex_digit :: "nat \<Rightarrow> nat" where
  "hex_digit d = (if d < 10 then 48 + d else 87 + d)"

definition escape_char :: "nat \<Rightarrow> pystr" where
  "escape_char c =
     (if c = 92 then [92, 92]
      else if c = 34 then [92, 34]
      else if c = 8 then [92, 98]
      else if c = 12 then [92, 102]
      else if c = 10 then [92, 110]
      else if c = 13 then [92, 114]
      else if c = 9 then [92, 116]
      else if c < 32 then [92, 117, 48, 48, hex_digit (c div 16), hex_digit (c mod 16)]
      else [c])"

definition encode_basestring :: "pystr \<Rightarrow> pystr" where
  "encode_basestring s = [34] @ concat (map escape_char s) @ [34]"

text \<open>
  The separators of \<^verbatim>\<open>JSONEncoder\<close>: \<^verbatim>\<open>', '\<close> between items, or \<^verbatim>\<open>','\<close> followed by
  a newline and the indentation when \<^verbatim>\<open>indent\<close> is given; \<^verbatim>\<open>': '\<close> after a key.
\<close>

fun newline_indent :: "nat option \<Rightarrow> nat \<Rightarrow> pystr" where
  "newline_indent None lvl = []"
| "newline_indent (Some n) lvl = 10 # replicate (n * lvl) 32"

fun item_separator :: "nat option \<Rightarrow> pystr" where
  "item_separator None = py '', ''"
| "item_separator (Some n) = py '',''"

definition key_separator :: pystr where
  "key_separator = py '': ''"

fun join_str :: "pystr \<Rightarrow> pystr list \<Rightarrow> pystr" where
  "join_str sep [] = []"
| "join_str sep [x] = x"
| "join_str sep (x # y # ys) = x @ sep @ join_str sep (y # ys)"

text \<open>
  \<^verbatim>\<open>JSONEncoder.iterencode\<close> at indentation level \<open>lvl\<close>: an empty container is
  \<^verbatim>\<open>[]\<close> or \<^verbatim>\<open>{}\<close> whatever the indentation; a dict is written in insertion order
  (\<^verbatim>\<open>sort_keys\<close> is off).
\<close>

fun iterencode :: "nat option \<Rightarrow> nat \<Rightarrow> json \<Rightarrow> pystr" where
  "iterencode ind lvl JNull = py ''null''"
| "iterencode ind lvl (JBool b) = (if b then py ''true'' else py ''false'')"
| "iterencode ind lvl (JInt i) = int_repr i"
| "iterencode ind lvl (JFloat r) = r"
| "iterencode ind lvl (JStr s) = encode_basestring s"
| "iterencode ind lvl (JList xs) =
     (if xs = [] then py ''[]''
      else py ''['' @ newline_indent ind (lvl + 1)
        @ join_str (item_separator ind @ newline_indent ind (lvl + 1))
            (map (iterencode ind (lvl + 1)) xs)
        @ newline_indent ind lvl @ py '']'')"
| "iterencode ind lvl (JDict kvs) =
     (if kvs = [] then py ''{}''
      else py ''{'' @ newline_indent ind (lvl + 1)
        @ join_str (item_separator ind @ newline_indent ind (lvl + 1))
            (map (\<lambda>(k, v). encode_basestring k @ key_separator @ iterencode ind (lvl + 1) v)
               kvs)
        @ newline_indent ind lvl @ py ''}'')"

text \<open>
  \<^verbatim>\<open>json.dumps(obj, ensure_ascii=False)\<close> is \<open>dumps None obj\<close> and
  \<^verbatim>\<open>json.dumps(obj, ensure_ascii=False, indent=2)\<close> is \<open>dumps (Some 2) obj\<close>.
\<close>

definition dumps :: "nat option \<Rightarrow> json \<Rightarrow> pystr" where
  "dumps indent obj = iterencode indent 0 obj"


section \<open>\<^verbatim>\<open>split_json_data\<close>\<close>

text \<open>
  The function reads the module constant \<^verbatim>\<open>MAX_FILE_SIZE\<close>. The model passes it as
  the first argument \<open>max_size\<close> of every function, so that a property can be stated
  for every budget; \<open>split_json_data\<close> below fixes it to the constant.
\<close>

definition MAX_FILE_SIZE :: int where
  "MAX_FILE_SIZE = 80 * 1024"

text \<open>
  The loop variables \<^verbatim>\<open>chunks\<close>, \<^verbatim>\<open>current_chunk\<close> and \<^verbatim>\<open>current_size\<close>, in this order.
\<close>

type_synonym 'c packing = "'c list \<times> 'c \<times> int"

text \<open>Lines 99 and 100: the size of a list item, one more than its encoded length.\<close>

definition list_item_size :: "json \<Rightarrow> error + int" where
  "list_item_size item =
     (case str_encode (dumps None item) of
        Inl e \<Rightarrow> Inl e
      | Inr item_bytes \<Rightarrow> Inr (int (length item_bytes) + 1))"

text \<open>Lines 99 to 118: one iteration of the loop over a list.\<close>

definition list_step :: "int \<Rightarrow> json \<Rightarrow> json list packing \<Rightarrow> error + json list packing" where
  "list_step max_size item st =
     (case st of (chunks, current_chunk, current_size) \<Rightarrow>
        (case list_item_size item of
           Inl e \<Rightarrow> Inl e
         | Inr item_size \<Rightarrow>
             Inr (if item_size > max_size - 2 then
                    (if current_chunk \<noteq> [] then ((chunks @ [current_chunk]) @ [[item]], [], 2)
                     else (chunks @ [[item]], current_chunk, current_size))
                  else if current_size + item_size > max_size then
                    (chunks @ [current_chunk], [item], 2 + item_size)
                  else (chunks, current_chunk @ [item], current_size + item_size))))"

fun list_loop :: "int \<Rightarrow> json list \<Rightarrow> json list packing \<Rightarrow> error + json list packing" where
  "list_loop max_size [] st = Inr st"
| "list_loop max_size (item # rest) st =
     (case list_step max_size item st of
        Inl e \<Rightarrow> Inl e
      | Inr st' \<Rightarrow> list_loop max_size rest st')"

text \<open>
  \<^verbatim>\<open>current_chunk[key] = value\<close> on a dict: the value of a key already there is
  replaced where it stands, a new key goes to the end.
\<close>

fun dict_set :: "(pystr \<times> json) list \<Rightarrow> pystr \<Rightarrow> json \<Rightarrow> (pystr \<times> json) list" where
  "dict_set [] key val = [(key, val)]"
| "dict_set ((k, v) # d) key val =
     (if k = key then (k, val) # d else (k, v) # dict_set d key val)"

text \<open>
  Lines 137 and 138: the size of a key/value pair is the encoded length of the
  one-pair dict \<^verbatim>\<open>{key: value}\<close>, with nothing added.
\<close>

definition dict_item_size :: "pystr \<Rightarrow> json \<Rightarrow> error + int" where
  "dict_item_size key val =
     (case str_encode (dumps None (JDict [(key, val)])) of
        Inl e \<Rightarrow> Inl e
      | Inr item_bytes \<Rightarrow> Inr (int (length item_bytes)))"

text \<open>Lines 137 to 154: one iteration of the loop over the items of a dict.\<close>

definition dict_step ::
  "int \<Rightarrow> pystr \<times> json \<Rightarrow> (pystr \<times> json) list packing \<Rightarrow> error + (pystr \<times> json) list packing"
where
  "dict_step max_size kv st =
     (case kv of (key, val) \<Rightarrow>
      (case st of (chunks, current_chunk, current_size) \<Rightarrow>
        (case dict_item_size key val of
           Inl e \<Rightarrow> Inl e
         | Inr item_size \<Rightarrow>
             Inr (if item_size > max_size - 2 then
                    (if current_chunk \<noteq> [] then ((chunks @ [current_chunk]) @ [[(key, val)]], [], 2)
                     else (chunks @ [[(key, val)]], current_chunk, current_size))
                  else if current_size + item_size > max_size then
                    (chunks @ [current_chunk], [(key, val)], 2 + item_size)
                  else (chunks, dict_set current_chunk key val, current_size + item_size)))))"

fun dict_loop ::
  "int \<Rightarrow> (pystr \<times> json) list \<Rightarrow> (pystr \<times> json) list packing
     \<Rightarrow> error + (pystr \<times> json) list packing"
where
  "dict_loop max_size [] st = Inr st"
| "dict_loop max_size (kv # rest) st =
     (case dict_step max_size kv st of
        Inl e \<Rightarrow> Inl e
      | Inr st' \<Rightarrow> dict_loop max_size rest st')"

text \<open>
  Lines 121, 122, 156 and 157: the chunk in progress is appended when it is not empty.
\<close>

definition flush_remaining :: "'a list packing \<Rightarrow> 'a list list" where
  "flush_remaining st =
     (case st of (chunks, current_chunk, current_size) \<Rightarrow>
        if current_chunk \<noteq> [] then chunks @ [current_chunk] else chunks)"

text \<open>
  Lines 93 to 159: the list \<^verbatim>\<open>chunks\<close> that the function has built when it reaches
  \<^verbatim>\<open># Save chunks\<close>.
\<close>

definition split_chunks :: "int \<Rightarrow> json \<Rightarrow> error + json list" where
  "split_chunks max_size data =
     (case data of
        JList items \<Rightarrow>
          (case list_loop max_size items ([], [], 2) of
             Inl e \<Rightarrow> Inl e
           | Inr st \<Rightarrow> Inr (map JList (flush_remaining st)))
      | JDict kvs \<Rightarrow>
          (case str_encode (dumps (Some 2) data) of
             Inl e \<Rightarrow> Inl e
           | Inr json_bytes \<Rightarrow>
               if int (length json_bytes) \<le> max_size then Inr [data]
               else
                 (case dict_loop max_size kvs ([], [], 2) of
                    Inl e \<Rightarrow> Inl e
                  | Inr st \<Rightarrow> Inr (map JDict (flush_remaining st))))
      | _ \<Rightarrow> Inr [data])"

text \<open>
  Lines 162 to 169, the effects on the file system. A \<^verbatim>\<open>pathlib\<close> path is the list of
  its parts (\<^verbatim>\<open>Path('.')\<close> has none), and \<^verbatim>\<open>output_dir / f"{i}.json"\<close> adds one part,
  the name being a single relative component. The calls are recorded in the order they
  happen: \<^verbatim>\<open>os.makedirs(output_dir, exist_ok=True)\<close>, then for each chunk
  \<^verbatim>\<open>open(output_file, 'w', encoding='utf-8')\<close>, which creates or truncates the file, and
  \<^verbatim>\<open>json.dump(chunk, f, ensure_ascii=False, indent=2)\<close>, recorded with the bytes the file
  holds once the dump has returned. When the dump raises, the file stays as the open
  left it and whatever the dump wrote before the exception, and the exception leaves the
  function: the record ends with the open. Errors of the operating system, the size read
  back with \<^verbatim>\<open>stat\<close> and the messages printed are left out.
\<close>

type_synonym path = "pystr list"

datatype fs_op = Makedirs path | Open_write path | Dumped path pybytes

fun save_chunks :: "path \<Rightarrow> nat \<Rightarrow> json list \<Rightarrow> fs_op list \<times> error option" where
  "save_chunks output_dir i [] = ([], None)"
| "save_chunks output_dir i (chunk # rest) =
     (let output_file = output_dir @ [nat_repr i @ py ''.json''] in
      case str_encode (dumps (Some 2) chunk) of
        Inl e \<Rightarrow> ([Open_write output_file], Some e)
      | Inr content \<Rightarrow>
          (case save_chunks output_dir (i + 1) rest of
             (ops, raised) \<Rightarrow> (Open_write output_file # Dumped output_file content # ops, raised)))"

text \<open>
  Lines 90 to 171: the calls made on the file system, and the exception raised or the
  number returned, \<^verbatim>\<open>len(chunks)\<close>. An exception raised while the chunks are built
  comes before any call.
\<close>

definition split_json_data_at ::
  "int \<Rightarrow> json \<Rightarrow> pystr \<Rightarrow> path \<Rightarrow> fs_op list \<times> (error + nat)"
where
  "split_json_data_at max_size data typename output_dir =
     (case split_chunks max_size data of
        Inl e \<Rightarrow> ([], Inl e)
      | Inr chunks \<Rightarrow>
          (case save_chunks output_dir 0 chunks of
             (ops, Some e) \<Rightarrow> (Makedirs output_dir # ops, Inl e)
           | (ops, None) \<Rightarrow> (Makedirs output_dir # ops, Inr (length chunks))))"

definition split_json_data :: "json \<Rightarrow> pystr \<Rightarrow> path \<Rightarrow> fs_op list \<times> (error + nat)" where
  "split_json_data data typename output_dir =
     split_json_data_at MAX_FILE_SIZE data typename output_dir"

section \<open>Measures of the statements\<close>

text \<open>
  The number of bytes of the UTF-8 encoding of a string, and whether the string can be
  encoded at all; \<open>str_encode_eq\<close> and \<open>str_encode_Inr\<close> below relate both to
  \<open>str_encode\<close>.
\<close>

definition byte_len :: "pystr \<Rightarrow> nat" where
  "byte_len s = length (concat (map utf8_bytes s))"

definition encodable :: "pystr \<Rightarrow> bool" where
  "encodable s = (\<not> list_ex is_surrogate s)"

definition json_encodable :: "json \<Rightarrow> bool" where
  "json_encodable v = encodable (dumps None v)"

definition pair_encodable :: "pystr \<times> json \<Rightarrow> bool" where
  "pair_encodable kv = encodable (dumps None (JDict [kv]))"

text \<open>
  The value of \<^verbatim>\<open>item_size\<close> when the encoding succeeds: for a list item (line 100)
  and for a key/value pair (line 138).
\<close>

definition list_size_of :: "json \<Rightarrow> int" where
  "list_size_of item = int (byte_len (dumps None item)) + 1"

definition dict_size_of :: "pystr \<times> json \<Rightarrow> int" where
  "dict_size_of kv = int (byte_len (dumps None (JDict [kv])))"

text \<open>
  The estimated content size of a chunk for element sizes \<open>sz\<close>: the container
  overhead 2 and the sizes of the elements.
\<close>

definition estimate :: "('a \<Rightarrow> int) \<Rightarrow> 'a list \<Rightarrow> int" where
  "estimate sz c = 2 + sum_list (map sz c)"

text \<open>
  The estimate in the words of the specification: the container overhead 2 and, for each
  element, the encoded length of its own serialisation \<open>text\<close> and one byte for the
  separator. The serialisation of a key/value pair is that of the one-pair dict, the only
  one the source computes.
\<close>

definition claimed_estimate :: "('a \<Rightarrow> pystr) \<Rightarrow> 'a list \<Rightarrow> int" where
  "claimed_estimate text c = 2 + (\<Sum>x\<leftarrow>c. int (byte_len (text x)) + 1)"

definition pair_text :: "pystr \<times> json \<Rightarrow> pystr" where
  "pair_text kv = dumps None (JDict [kv])"

text \<open>
  Four items of 27 characters: each is 29 bytes when encoded, so its size is 30.
\<close>

definition item0 :: json where "item0 = JStr (py ''AK-47 | Redline (Tested) #0'')"
definition item1 :: json where "item1 = JStr (py ''AK-47 | Redline (Tested) #1'')"
definition item2 :: json where "item2 = JStr (py ''AK-47 | Redline (Tested) #2'')"
definition item3 :: json where "item3 = JStr (py ''AK-47 | Redline (Tested) #3'')"

text \<open>
  Merging one dict into another, as \<^verbatim>\<open>d.update(e)\<close> does; merging the chunks of a
  mapping in order is \<open>foldl dict_update []\<close>.
\<close>

fun dict_update :: "(pystr \<times> json) list \<Rightarrow> (pystr \<times> json) list \<Rightarrow> (pystr \<times> json) list" where
  "dict_update d [] = d"
| "dict_update d ((k, v) # rest) = dict_update (dict_set d k v) rest"

text \<open>\<^verbatim>\<open>isinstance(data, list)\<close> and \<^verbatim>\<open>isinstance(data, dict)\<close>.\<close>

fun is_list :: "json \<Rightarrow> bool" where
  "is_list (JList items) = True"
| "is_list _ = False"

fun is_dict :: "json \<Rightarrow> bool" where
  "is_dict (JDict kvs) = True"
| "is_dict _ = False"


section \<open>The two loops as one packing function\<close>

text \<open>
  The loop over a list and the loop over the items of a dict differ in the size of an
  element and in how the element is added. \<open>pack_step\<close> is their common shape over a
  size function \<open>sz\<close>; \<open>list_loop_eq\<close> and \<open>dict_loop_eq\<close> below prove that each loop of
  the source computes it, so that a property is proved once for both.
\<close>

definition pack_step :: "int \<Rightarrow> ('a \<Rightarrow> int) \<Rightarrow> 'a \<Rightarrow> 'a list packing \<Rightarrow> 'a list packing" where
  "pack_step max_size sz x st =
     (case st of (chunks, current_chunk, current_size) \<Rightarrow>
        if sz x > max_size - 2 then
          (if current_chunk \<noteq> [] then ((chunks @ [current_chunk]) @ [[x]], [], 2)
           else (chunks @ [[x]], current_chunk, current_size))
        else if current_size + sz x > max_size then (chunks @ [current_chunk], [x], 2 + sz x)
        else (chunks, current_chunk @ [x], current_size + sz x))"

fun pack_loop :: "int \<Rightarrow> ('a \<Rightarrow> int) \<Rightarrow> 'a list \<Rightarrow> 'a list packing \<Rightarrow> 'a list packing" where
  "pack_loop max_size sz [] st = st"
| "pack_loop max_size sz (x # xs) st = pack_loop max_size sz xs (pack_step max_size sz x st)"

text \<open>
  A finished chunk is not empty, and its estimate is within the budget unless it is one
  element that is too large on its own. The invariant of the loop: the running size is
  the estimate of the chunk in progress, which fits the budget once it has an element.
\<close>

definition within_budget :: "int \<Rightarrow> ('a \<Rightarrow> int) \<Rightarrow> 'a list \<Rightarrow> bool" where
  "within_budget max_size sz c =
     (c \<noteq> [] \<and> (estimate sz c \<le> max_size \<or> (length c = 1 \<and> sz (hd c) > max_size - 2)))"

definition pack_inv :: "int \<Rightarrow> ('a \<Rightarrow> int) \<Rightarrow> 'a list packing \<Rightarrow> bool" where
  "pack_inv max_size sz st =
     (case st of (chunks, current_chunk, current_size) \<Rightarrow>
        current_size = estimate sz current_chunk
        \<and> (current_chunk \<noteq> [] \<longrightarrow> current_size \<le> max_size)
        \<and> list_all (within_budget max_size sz) chunks)"


section \<open>The function as a relation between a call and its outcome\<close>

text \<open>
  To speak of two invocations, a call is also given as a relation between its arguments
  and an outcome, one rule for each path through the source: \<open>list_run\<close> for the loop of
  lines 98 to 118, \<open>dict_run\<close> for the loop of lines 136 to 154, \<open>chunks_run\<close> for lines 93
  to 159. The guards are those of the \<^verbatim>\<open>if\<close> statements; a rule for an \<^verbatim>\<open>else\<close> branch
  carries the negation. \<open>chunks_run_split_chunks\<close> below shows that the outcome computed by
  \<open>split_chunks\<close> is one the rules derive.
\<close>

inductive list_run ::
  "int \<Rightarrow> json list \<Rightarrow> json list packing \<Rightarrow> error + json list packing \<Rightarrow> bool"
  for max_size :: int
where
  list_done:
    "list_run max_size [] st (Inr st)"
| list_raise:
    "list_item_size item = Inl e
     \<Longrightarrow> list_run max_size (item # rest) st (Inl e)"
| list_alone_flush:
    "list_item_size item = Inr item_size \<Longrightarrow> item_size > max_size - 2
     \<Longrightarrow> current_chunk \<noteq> []
     \<Longrightarrow> list_run max_size rest ((chunks @ [current_chunk]) @ [[item]], [], 2) r
     \<Longrightarrow> list_run max_size (item # rest) (chunks, current_chunk, current_size) r"
| list_alone:
    "list_item_size item = Inr item_size \<Longrightarrow> item_size > max_size - 2
     \<Longrightarrow> current_chunk = []
     \<Longrightarrow> list_run max_size rest (chunks @ [[item]], current_chunk, current_size) r
     \<Longrightarrow> list_run max_size (item # rest) (chunks, current_chunk, current_size) r"
| list_new_chunk:
    "list_item_size item = Inr item_size \<Longrightarrow> \<not> item_size > max_size - 2
     \<Longrightarrow> current_size + item_size > max_size
     \<Longrightarrow> list_run max_size rest (chunks @ [current_chunk], [item], 2 + item_size) r
     \<Longrightarrow> list_run max_size (item # rest) (chunks, current_chunk, current_size) r"
| list_append:
    "list_item_size item = Inr item_size \<Longrightarrow> \<not> item_size > max_size - 2
     \<Longrightarrow> \<not> current_size + item_size > max_size
     \<Longrightarrow> list_run max_size rest (chunks, current_chunk @ [item], current_size + item_size) r
     \<Longrightarrow> list_run max_size (item # rest) (chunks, current_chunk, current_size) r"

inductive dict_run ::
  "int \<Rightarrow> (pystr \<times> json) list \<Rightarrow> (pystr \<times> json) list packing
     \<Rightarrow> error + (pystr \<times> json) list packing \<Rightarrow> bool"
  for max_size :: int
where
  dict_done:
    "dict_run max_size [] st (Inr st)"
| dict_raise:
    "dict_item_size key val = Inl e
     \<Longrightarrow> dict_run max_size ((key, val) # rest) st (Inl e)"
| dict_alone_flush:
    "dict_item_size key val = Inr item_size \<Longrightarrow> item_size > max_size - 2
     \<Longrightarrow> current_chunk \<noteq> []
     \<Longrightarrow> dict_run max_size rest ((chunks @ [current_chunk]) @ [[(key, val)]], [], 2) r
     \<Longrightarrow> dict_run max_size ((key, val) # rest) (chunks, current_chunk, current_size) r"
| dict_alone:
    "dict_item_size key val = Inr item_size \<Longrightarrow> item_size > max_size - 2
     \<Longrightarrow> current_chunk = []
     \<Longrightarrow> dict_run max_size rest (chunks @ [[(key, val)]], current_chunk, current_size) r
     \<Longrightarrow> dict_run max_size ((key, val) # rest) (chunks, current_chunk, current_size) r"
| dict_new_chunk:
    "dict_item_size key val = Inr item_size \<Longrightarrow> \<not> item_size > max_size - 2
     \<Longrightarrow> current_size + item_size > max_size
     \<Longrightarrow> dict_run max_size rest (chunks @ [current_chunk], [(key, val)], 2 + item_size) r
     \<Longrightarrow> dict_run max_size ((key, val) # rest) (chunks, current_chunk, current_size) r"
| dict_append:
    "dict_item_size key val = Inr item_size \<Longrightarrow> \<not> item_size > max_size - 2
     \<Longrightarrow> \<not> current_size + item_size > max_size
     \<Longrightarrow> dict_run max_size rest
          (chunks, dict_set current_chunk key val, current_size + item_size) r
     \<Longrightarrow> dict_run max_size ((key, val) # rest) (chunks, current_chunk, current_size) r"

inductive chunks_run :: "int \<Rightarrow> json \<Rightarrow> error + json list \<Rightarrow> bool"
  for max_size :: int
where
  run_list:
    "list_run max_size items ([], [], 2) (Inr st)
     \<Longrightarrow> chunks_run max_size (JList items) (Inr (map JList (flush_remaining st)))"
| run_list_raise:
    "list_run max_size items ([], [], 2) (Inl e)
     \<Longrightarrow> chunks_run max_size (JList items) (Inl e)"
| run_dict_raise:
    "str_encode (dumps (Some 2) (JDict kvs)) = Inl e
     \<Longrightarrow> chunks_run max_size (JDict kvs) (Inl e)"
| run_dict_whole:
    "str_encode (dumps (Some 2) (JDict kvs)) = Inr json_bytes
     \<Longrightarrow> int (length json_bytes) \<le> max_size
     \<Longrightarrow> chunks_run max_size (JDict kvs) (Inr [JDict kvs])"
| run_dict_split:
    "str_encode (dumps (Some 2) (JDict kvs)) = Inr json_bytes
     \<Longrightarrow> \<not> int (length json_bytes) \<le> max_size
     \<Longrightarrow> dict_run max_size kvs ([], [], 2) (Inr st)
     \<Longrightarrow> chunks_run max_size (JDict kvs) (Inr (map JDict (flush_remaining st)))"
| run_dict_split_raise:
    "str_encode (dumps (Some 2) (JDict kvs)) = Inr json_bytes
     \<Longrightarrow> \<not> int (length json_bytes) \<le> max_size
     \<Longrightarrow> dict_run max_size kvs ([], [], 2) (Inl e)
     \<Longrightarrow> chunks_run max_size (JDict kvs) (Inl e)"
| run_other:
    "\<not> is_list data \<Longrightarrow> \<not> is_dict data
     \<Longrightarrow> chunks_run max_size data (Inr [data])"

code_pred list_run .

code_pred dict_run .

code_pred chunks_run .


section \<open>Properties of the packing function\<close>

lemma estimate_simps [simp]:
  "estimate sz [] = 2"
  "estimate sz (c @ [x]) = estimate sz c + sz x"
  "estimate sz [x] = 2 + sz x"
  by (simp_all add: estimate_def)

lemma pack_step_contents:
  "pack_step B sz x (chunks, cur, csize) = (chunks', cur', csize')
   \<Longrightarrow> concat chunks' @ cur' = concat chunks @ cur @ [x]"
  by (auto simp: pack_step_def split: if_splits)

lemma pack_loop_contents:
  "pack_loop B sz xs (chunks, cur, csize) = (chunks', cur', csize')
   \<Longrightarrow> concat chunks' @ cur' = concat chunks @ cur @ xs"
proof (induction xs arbitrary: chunks cur csize)
  case Nil
  then show ?case by simp
next
  case (Cons x xs)
  obtain c1 u1 s1 where st: "pack_step B sz x (chunks, cur, csize) = (c1, u1, s1)"
    by (cases "pack_step B sz x (chunks, cur, csize)") auto
  from Cons.prems st have "pack_loop B sz xs (c1, u1, s1) = (chunks', cur', csize')" by simp
  from Cons.IH [OF this] pack_step_contents [OF st] show ?case by simp
qed

lemma pack_step_inv:
  "pack_inv B sz st \<Longrightarrow> pack_inv B sz (pack_step B sz x st)"
  by (cases st) (auto simp: pack_inv_def pack_step_def within_budget_def)

lemma pack_loop_inv:
  "pack_inv B sz st \<Longrightarrow> pack_inv B sz (pack_loop B sz xs st)"
  by (induction xs arbitrary: st) (simp_all add: pack_step_inv)

lemma pack_inv_init: "pack_inv B sz ([], [], 2)"
  by (simp add: pack_inv_def)

lemma pack_step_extends:
  "\<exists>more. fst (pack_step B sz x (chunks, cur, csize)) = chunks @ more"
  by (simp add: pack_step_def)

lemma pack_loop_extends:
  "\<exists>more. fst (pack_loop B sz xs (chunks, cur, csize)) = chunks @ more"
proof (induction xs arbitrary: chunks cur csize)
  case Nil
  then show ?case by simp
next
  case (Cons x xs)
  obtain c1 u1 s1 where st: "pack_step B sz x (chunks, cur, csize) = (c1, u1, s1)"
    by (cases "pack_step B sz x (chunks, cur, csize)") auto
  from pack_step_extends [of B sz x chunks cur csize] st obtain m1 where "c1 = chunks @ m1"
    by auto
  moreover from Cons.IH [of c1 u1 s1] obtain m2
    where "fst (pack_loop B sz xs (c1, u1, s1)) = c1 @ m2" by auto
  ultimately show ?case using st by simp
qed

lemma flush_extends:
  "\<exists>more. flush_remaining (pack_loop B sz xs (chunks, cur, csize)) = chunks @ more"
proof -
  obtain c1 u1 s1 where st: "pack_loop B sz xs (chunks, cur, csize) = (c1, u1, s1)"
    by (cases "pack_loop B sz xs (chunks, cur, csize)") auto
  from pack_loop_extends [of B sz xs chunks cur csize] st obtain m where "c1 = chunks @ m"
    by auto
  then show ?thesis using st by (simp add: flush_remaining_def)
qed

lemma flush_contents:
  "concat (flush_remaining (pack_loop B sz xs (chunks, cur, csize))) = concat chunks @ cur @ xs"
proof -
  obtain c1 u1 s1 where st: "pack_loop B sz xs (chunks, cur, csize) = (c1, u1, s1)"
    by (cases "pack_loop B sz xs (chunks, cur, csize)") auto
  from pack_loop_contents [OF st] show ?thesis using st by (auto simp: flush_remaining_def)
qed

lemma flush_within_budget:
  assumes "pack_inv B sz st"
  shows "list_all (within_budget B sz) (flush_remaining (pack_loop B sz xs st))"
proof -
  obtain c1 u1 s1 where st: "pack_loop B sz xs st = (c1, u1, s1)"
    by (cases "pack_loop B sz xs st") auto
  from pack_loop_inv [OF assms, of xs] st have "pack_inv B sz (c1, u1, s1)" by simp
  then show ?thesis using st
    by (auto simp: flush_remaining_def pack_inv_def within_budget_def)
qed

lemma pack_full_closes:
  assumes "cur \<noteq> []" and "B \<le> csize" and "\<forall>y\<in>set xs. 0 < sz y"
  shows "\<exists>more. flush_remaining (pack_loop B sz xs (chunks, cur, csize)) = (chunks @ [cur]) @ more"
proof (cases xs)
  case Nil
  with assms show ?thesis by (simp add: flush_remaining_def)
next
  case (Cons y ys)
  with assms have "0 < sz y" by simp
  with assms have "pack_step B sz y (chunks, cur, csize) = ((chunks @ [cur]) @ [[y]], [], 2)
      \<or> pack_step B sz y (chunks, cur, csize) = ((chunks @ [cur]) @ [], [y], 2 + sz y)"
    by (simp add: pack_step_def)
  then obtain u1 s1 m1 where "pack_step B sz y (chunks, cur, csize) = ((chunks @ [cur]) @ m1, u1, s1)"
    by blast
  moreover from flush_extends [of B sz ys "(chunks @ [cur]) @ m1" u1 s1]
  obtain m2 where "flush_remaining (pack_loop B sz ys ((chunks @ [cur]) @ m1, u1, s1))
      = ((chunks @ [cur]) @ m1) @ m2" by blast
  ultimately show ?thesis using Cons by simp
qed


section \<open>Properties of the encoder\<close>

lemma str_encode_eq:
  "str_encode s = (if encodable s then Inr (concat (map utf8_bytes s)) else Inl UnicodeEncodeError)"
  by (simp add: str_encode_def encodable_def)

lemma str_encode_Inr:
  "str_encode s = Inr b \<Longrightarrow> encodable s \<and> length b = byte_len s"
  by (auto simp: str_encode_eq byte_len_def split: if_splits)

lemma byte_len_simps [simp]:
  "byte_len [] = 0"
  "byte_len (c # s) = length (utf8_bytes c) + byte_len s"
  "byte_len (s @ t) = byte_len s + byte_len t"
  by (simp_all add: byte_len_def)

lemma encodable_simps [simp]:
  "encodable []"
  "encodable (c # s) = (\<not> is_surrogate c \<and> encodable s)"
  "encodable (s @ t) = (encodable s \<and> encodable t)"
  by (auto simp: encodable_def)

lemma utf8_bytes_ascii: "c < 128 \<Longrightarrow> length (utf8_bytes c) = 1"
  by (simp add: utf8_bytes_def)

lemma utf8_bytes_pos: "0 < length (utf8_bytes c)"
  by (simp add: utf8_bytes_def)

lemma byte_len_replicate_space [simp]: "byte_len (replicate n 32) = n"
  by (induction n) (simp_all add: utf8_bytes_def)

lemma encodable_replicate_space [simp]: "encodable (replicate n 32)"
  by (induction n) (simp_all add: is_surrogate_def)

lemma encodable_py [simp]: "encodable (py s)"
proof -
  have "\<not> is_surrogate (of_char c)" for c :: char
  proof -
    show ?thesis using nat_of_char_less_256 [of c] unfolding is_surrogate_def by linarith
  qed
  then show ?thesis by (induction s) (simp_all add: py_def)
qed

lemma encodable_newline_indent [simp]: "encodable (newline_indent ind lvl)"
  by (cases ind) (simp_all add: is_surrogate_def)

lemma encodable_item_separator [simp]: "encodable (item_separator ind)"
  by (cases ind) simp_all

lemma encodable_key_separator [simp]: "encodable key_separator"
  by (simp add: key_separator_def)

lemma encodable_join_str:
  "encodable sep \<Longrightarrow> encodable (join_str sep xs) = list_all encodable xs"
  by (induction sep xs rule: join_str.induct) simp_all

lemma byte_len_join_str:
  "byte_len (join_str sep xs) = sum_list (map byte_len xs) + (length xs - 1) * byte_len sep"
  by (induction sep xs rule: join_str.induct) simp_all

lemma byte_len_brackets [simp]:
  "byte_len (py ''['') = 1" "byte_len (py '']'') = 1"
  "byte_len (py ''{'') = 1" "byte_len (py ''}'') = 1"
  "byte_len (py ''[]'') = 2" "byte_len (py ''{}'') = 2"
  "byte_len (py '', '') = 2" "byte_len (py '','') = 1"
  "byte_len key_separator = 2"
  by (simp_all add: py_def utf8_bytes_def key_separator_def)

lemma byte_len_newline_indent [simp]:
  "byte_len (newline_indent None lvl) = 0"
  "byte_len (newline_indent (Some n) lvl) = 1 + n * lvl"
  by (simp_all add: utf8_bytes_def)

text \<open>Whether a value can be encoded does not depend on the indentation.\<close>

lemma encodable_iterencode:
  "encodable (iterencode ind lvl v) = encodable (iterencode ind' lvl' v)"
proof (induction v arbitrary: lvl lvl')
  case (JList xs)
  then have "list_all (\<lambda>x. encodable (iterencode ind (lvl + 1) x)) xs
      = list_all (\<lambda>x. encodable (iterencode ind' (lvl' + 1) x)) xs"
    by (auto simp: list_all_iff)
  then show ?case
    by (simp add: encodable_join_str list_all_iff)
next
  case (JDict kvs)
  have pt: "encodable (iterencode ind (lvl + 1) (snd kv))
        = encodable (iterencode ind' (lvl' + 1) (snd kv))" if "kv \<in> set kvs" for kv
    using that by (rule JDict.IH [OF _ Basic_BNFs.snds.intros])
  then show ?case
    by (auto simp: encodable_join_str list_all_iff case_prod_unfold)
qed simp_all

text \<open>The compact encoding is never longer than an indented one.\<close>

lemma compact_le_indented:
  "byte_len (iterencode None lvl v) \<le> byte_len (iterencode (Some n) lvl' v)"
proof (induction v arbitrary: lvl lvl')
  case (JList xs)
  have s: "(\<Sum>x\<leftarrow>xs. byte_len (iterencode None (lvl + 1) x))
      \<le> (\<Sum>x\<leftarrow>xs. byte_len (iterencode (Some n) (lvl' + 1) x))"
    by (rule sum_list_mono) (rule JList.IH)
  from s show ?case
    by (simp add: byte_len_join_str comp_def add_mult_distrib2 del: newline_indent.simps)
next
  case (JDict kvs)
  have s: "(\<Sum>kv\<leftarrow>kvs. byte_len (encode_basestring (fst kv)) + 2
              + byte_len (iterencode None (lvl + 1) (snd kv)))
      \<le> (\<Sum>kv\<leftarrow>kvs. byte_len (encode_basestring (fst kv)) + 2
              + byte_len (iterencode (Some n) (lvl' + 1) (snd kv)))"
  proof (rule sum_list_mono)
    fix kv assume "kv \<in> set kvs"
    then have "byte_len (iterencode None (lvl + 1) (snd kv))
        \<le> byte_len (iterencode (Some n) (lvl' + 1) (snd kv))"
      by (rule JDict.IH [OF _ Basic_BNFs.snds.intros])
    then show "byte_len (encode_basestring (fst kv)) + 2
              + byte_len (iterencode None (lvl + 1) (snd kv))
        \<le> byte_len (encode_basestring (fst kv)) + 2
              + byte_len (iterencode (Some n) (lvl' + 1) (snd kv))" by simp
  qed
  from s show ?case
    by (simp add: byte_len_join_str comp_def case_prod_unfold add_mult_distrib2
          sum_list_addf del: newline_indent.simps)
qed simp_all

lemma dict_size_of_eq:
  "dict_size_of kv = int (byte_len (encode_basestring (fst kv)) + 2
      + byte_len (iterencode None 1 (snd kv))) + 2"
  by (cases kv) (simp add: dict_size_of_def dumps_def)

lemma dict_size_of_pos: "0 < dict_size_of kv"
  by (simp add: dict_size_of_eq)

lemma list_size_of_pos: "0 < list_size_of x"
  by (simp add: list_size_of_def)

lemma dict_sizes_le:
  "sum_list (map dict_size_of kvs)
     \<le> int (\<Sum>kv\<leftarrow>kvs. byte_len (encode_basestring (fst kv)) + 2
              + byte_len (iterencode (Some n) 1 (snd kv))) + 2 * int (length kvs)"
proof (induction kvs)
  case Nil
  then show ?case by simp
next
  case (Cons kv kvs)
  have "byte_len (iterencode None 1 (snd kv)) \<le> byte_len (iterencode (Some n) 1 (snd kv))"
    by (rule compact_le_indented)
  with Cons show ?case by (simp add: dict_size_of_eq)
qed

lemma byte_len_indented_dict:
  "kvs \<noteq> [] \<Longrightarrow> byte_len (dumps (Some 2) (JDict kvs))
     = (\<Sum>kv\<leftarrow>kvs. byte_len (encode_basestring (fst kv)) + 2
              + byte_len (iterencode (Some 2) 1 (snd kv))) + 4 * length kvs + 2"
  by (cases kvs)
    (simp_all add: dumps_def byte_len_join_str comp_def case_prod_unfold
      del: newline_indent.simps)

lemma estimate_le_indented:
  "estimate dict_size_of kvs \<le> int (byte_len (dumps (Some 2) (JDict kvs)))"
proof (cases "kvs = []")
  case True
  then show ?thesis by (simp add: dumps_def)
next
  case False
  from dict_sizes_le [of kvs 2] show ?thesis
    by (simp add: byte_len_indented_dict [OF False] estimate_def)
qed


section \<open>The loops of the source compute the packing function\<close>

lemma list_item_size_eq:
  "list_item_size item =
     (if encodable (dumps None item) then Inr (list_size_of item) else Inl UnicodeEncodeError)"
  by (simp add: list_item_size_def str_encode_eq list_size_of_def byte_len_def)

lemma list_step_eq:
  "list_step B item st =
     (if encodable (dumps None item) then Inr (pack_step B list_size_of item st)
      else Inl UnicodeEncodeError)"
  by (cases st) (simp add: list_step_def list_item_size_eq pack_step_def)

lemma list_loop_eq:
  "list_loop B items st =
     (if list_all (\<lambda>x. encodable (dumps None x)) items
      then Inr (pack_loop B list_size_of items st) else Inl UnicodeEncodeError)"
  by (induction items arbitrary: st) (simp_all add: list_step_eq)

lemma dict_set_fresh: "key \<notin> fst ` set d \<Longrightarrow> dict_set d key val = d @ [(key, val)]"
  by (induction d) auto

lemma dict_item_size_eq:
  "dict_item_size key val =
     (if encodable (dumps None (JDict [(key, val)])) then Inr (dict_size_of (key, val))
      else Inl UnicodeEncodeError)"
  by (simp add: dict_item_size_def str_encode_eq dict_size_of_def byte_len_def)

lemma dict_step_eq:
  "fst kv \<notin> fst ` set cur \<Longrightarrow>
   dict_step B kv (chunks, cur, csize) =
     (if encodable (dumps None (JDict [kv]))
      then Inr (pack_step B dict_size_of kv (chunks, cur, csize))
      else Inl UnicodeEncodeError)"
  by (cases kv) (simp add: dict_step_def dict_item_size_eq pack_step_def dict_set_fresh)

lemma pack_step_current:
  "pack_step B sz x (chunks, cur, csize) = (c1, u1, s1)
   \<Longrightarrow> u1 = [] \<or> u1 = cur \<or> u1 = [x] \<or> u1 = cur @ [x]"
  by (auto simp: pack_step_def split: if_splits)

lemma dict_loop_eq:
  "distinct (map fst (cur @ kvs)) \<Longrightarrow>
   dict_loop B kvs (chunks, cur, csize) =
     (if list_all (\<lambda>kv. encodable (dumps None (JDict [kv]))) kvs
      then Inr (pack_loop B dict_size_of kvs (chunks, cur, csize))
      else Inl UnicodeEncodeError)"
proof (induction kvs arbitrary: chunks cur csize)
  case Nil
  then show ?case by simp
next
  case (Cons kv kvs)
  from Cons.prems have fresh: "fst kv \<notin> fst ` set cur" by auto
  obtain c1 u1 s1 where st: "pack_step B dict_size_of kv (chunks, cur, csize) = (c1, u1, s1)"
    by (cases "pack_step B dict_size_of kv (chunks, cur, csize)") auto
  from pack_step_current [OF st] Cons.prems have "distinct (map fst (u1 @ kvs))"
    by (elim disjE) (force simp: image_iff)+
  from Cons.IH [OF this, of c1 s1] st show ?case
    by (simp add: dict_step_eq [OF fresh])
qed

lemma json_encodable_fun: "json_encodable = (\<lambda>x. encodable (dumps None x))"
  by (simp add: fun_eq_iff json_encodable_def)

lemma pair_encodable_fun: "pair_encodable = (\<lambda>kv. encodable (dumps None (JDict [kv])))"
  by (simp add: fun_eq_iff pair_encodable_def)

lemma encodable_dict_pairs:
  "json_encodable (JDict kvs) \<Longrightarrow> list_all pair_encodable kvs"
proof -
  assume a: "json_encodable (JDict kvs)"
  show ?thesis
  proof (cases "kvs = []")
    case True
    then show ?thesis by simp
  next
    case False
    with a have "list_all (\<lambda>kv. encodable (encode_basestring (fst kv)) \<and>
        encodable (iterencode None 1 (snd kv))) kvs"
      by (simp add: json_encodable_def dumps_def encodable_join_str list_all_iff case_prod_unfold)
    then show ?thesis
      by (simp add: pair_encodable_def dumps_def list_all_iff case_prod_unfold)
  qed
qed

lemma split_chunks_list:
  "split_chunks B (JList items) =
     (if list_all json_encodable items
      then Inr (map JList (flush_remaining (pack_loop B list_size_of items ([], [], 2))))
      else Inl UnicodeEncodeError)"
  by (simp add: split_chunks_def list_loop_eq json_encodable_fun)

lemma split_chunks_dict:
  assumes "distinct (map fst kvs)"
  shows "split_chunks B (JDict kvs) =
     (if \<not> json_encodable (JDict kvs) then Inl UnicodeEncodeError
      else if int (byte_len (dumps (Some 2) (JDict kvs))) \<le> B then Inr [JDict kvs]
      else Inr (map JDict (flush_remaining (pack_loop B dict_size_of kvs ([], [], 2)))))"
proof -
  have e: "encodable (dumps (Some 2) (JDict kvs)) = json_encodable (JDict kvs)"
    unfolding json_encodable_def dumps_def by (rule encodable_iterencode)
  have l: "dict_loop B kvs ([], [], 2) = Inr (pack_loop B dict_size_of kvs ([], [], 2))"
    if "json_encodable (JDict kvs)"
    using encodable_dict_pairs [OF that] assms
    by (simp add: dict_loop_eq pair_encodable_fun)
  show ?thesis
    by (auto simp: split_chunks_def str_encode_eq e l byte_len_def)
qed

lemma dict_update_fresh:
  "distinct (map fst (a @ b)) \<Longrightarrow> dict_update a b = a @ b"
proof (induction b arbitrary: a)
  case Nil
  then show ?case by simp
next
  case (Cons kv b)
  obtain k v where kv: "kv = (k, v)" by (cases kv)
  with Cons.prems have "k \<notin> fst ` set a" by auto
  then have s: "dict_set a k v = a @ [(k, v)]" by (rule dict_set_fresh)
  from Cons.prems kv have "distinct (map fst ((a @ [(k, v)]) @ b))" by simp
  from Cons.IH [OF this] s kv show ?case by simp
qed

lemma foldl_dict_update:
  "distinct (map fst (acc @ concat dss)) \<Longrightarrow> foldl dict_update acc dss = acc @ concat dss"
proof (induction dss arbitrary: acc)
  case Nil
  then show ?case by simp
next
  case (Cons d dss)
  from Cons.prems have "distinct (map fst (acc @ d))" by auto
  then have u: "dict_update acc d = acc @ d" by (rule dict_update_fresh)
  from Cons.prems have "distinct (map fst ((acc @ d) @ concat dss))" by simp
  from Cons.IH [OF this] u show ?case by simp
qed

lemma flush_init_contents:
  "concat (flush_remaining (pack_loop B sz xs ([], [], 2))) = xs"
  using flush_contents [of B sz xs "[]" "[]" 2] by simp


text \<open>The definitions that evaluate the model on a concrete input.\<close>

lemma replicate_numeral: "replicate (numeral k) x = x # replicate (pred_numeral k) x"
  by (simp add: numeral_eq_Suc)

lemmas ev = split_chunks_def str_encode_def dumps_def py_def key_separator_def
  encode_basestring_def escape_char_def int_repr_def nat_repr.simps utf8_bytes_def
  is_surrogate_def dict_step_def dict_item_size_def flush_remaining_def list_step_def
  list_item_size_def hex_digit_def json_encodable_def encodable_def replicate_numeral

text \<open>
  The encoder on sample values, against the output of \<^verbatim>\<open>json.dumps\<close> and
  \<^verbatim>\<open>str.encode\<close> of CPython 3.
\<close>

lemma dumps_indent_example:
  "dumps (Some 2) (JDict [(py ''a'', JInt 1), (py ''b'', JList [JInt (- 20), JNull, JStr [10, 233, 34], JList [], JDict []])])
     = [123, 10, 32, 32, 34, 97, 34, 58, 32, 49, 44, 10, 32, 32, 34, 98, 34, 58, 32, 91,
        10, 32, 32, 32, 32, 45, 50, 48, 44, 10, 32, 32, 32, 32, 110, 117, 108, 108,
        44, 10, 32, 32, 32, 32, 34, 92, 110, 233, 92, 34, 34, 44, 10, 32, 32, 32,
        32, 91, 93, 44, 10, 32, 32, 32, 32, 123, 125, 10, 32, 32, 93, 10, 125]"
  by (simp add: ev)

lemma dumps_compact_example:
  "dumps None (JDict [(py ''a'', JInt 1), (py ''b'', JList [JInt (- 20), JNull, JStr [10, 233, 34], JList [], JDict []])])
     = [123, 34, 97, 34, 58, 32, 49, 44, 32, 34, 98, 34, 58, 32, 91, 45, 50, 48, 44, 32,
        110, 117, 108, 108, 44, 32, 34, 92, 110, 233, 92, 34, 34, 44, 32, 91, 93,
        44, 32, 123, 125, 93, 125]"
  by (simp add: ev)

lemma dumps_escape_example:
  "dumps None (JStr [0, 31, 127, 92, 8, 12, 13, 9, 47])
     = [34, 92, 117, 48, 48, 48, 48, 92, 117, 48, 48, 49, 102, 127, 92, 92, 92, 98, 92,
        102, 92, 114, 92, 116, 47, 34]"
  by (simp add: ev)

lemma dumps_number_example:
  "dumps None (JList [JBool True, JBool False, JInt 0, JInt 100000000000000000000, JInt (- 7)])
     = [91, 116, 114, 117, 101, 44, 32, 102, 97, 108, 115, 101, 44, 32, 48, 44, 32, 49,
        48, 48, 48, 48, 48, 48, 48, 48, 48, 48, 48, 48, 48, 48, 48, 48, 48, 48, 48,
        48, 44, 32, 45, 55, 93]"
  by (simp add: ev)

lemma str_encode_example:
  "str_encode (dumps None (JStr [128512, 233, 8364]))
     = Inr [34, 240, 159, 152, 128, 195, 169, 226, 130, 172, 34]"
  by (simp add: ev)

lemma str_encode_surrogate_example:
  "str_encode (dumps None (JStr [55296])) = Inl UnicodeEncodeError"
  by (simp add: ev)

lemma flush_init_within_budget:
  "list_all (within_budget B sz) (flush_remaining (pack_loop B sz xs ([], [], 2)))"
  by (rule flush_within_budget) (rule pack_inv_init)

lemma within_budget_bounds:
  "within_budget B sz c \<Longrightarrow>
     (1 < length c \<longrightarrow> estimate sz c \<le> B)
     \<and> (B < estimate sz c \<longrightarrow> length c = 1 \<and> B - 2 < sz (hd c))"
  by (auto simp: within_budget_def)


lemma sum_sizes_nonneg: "\<forall>y\<in>set ys. 0 < sz y \<Longrightarrow> (0::int) \<le> sum_list (map sz ys)"
  by (induction ys) auto

lemma sum_sizes_pos: "\<forall>y\<in>set ys. 0 < sz y \<Longrightarrow> ys \<noteq> [] \<Longrightarrow> (0::int) < sum_list (map sz ys)"
proof (cases ys)
  case Nil
  then show "\<forall>y\<in>set ys. 0 < sz y \<Longrightarrow> ys \<noteq> [] \<Longrightarrow> ?thesis" by simp
next
  case (Cons y zs)
  assume a: "\<forall>y\<in>set ys. 0 < sz y"
  with Cons have "0 < sz y" and "\<forall>y\<in>set zs. 0 < sz y" by simp_all
  with sum_sizes_nonneg [of zs sz] show ?thesis by (simp add: Cons)
qed

lemma fitting_large_is_alone:
  assumes "i < length xs" and "\<forall>y\<in>set xs. 0 < sz y"
    and "estimate sz xs \<le> B" and "B - 2 \<le> sz (xs ! i)"
  shows "xs = [xs ! i]"
proof -
  have xs: "xs = take i xs @ xs ! i # drop (Suc i) xs"
    using assms(1) by (rule id_take_nth_drop)
  have p: "\<forall>y\<in>set (take i xs). 0 < sz y" "\<forall>y\<in>set (drop (Suc i) xs). 0 < sz y"
    using assms(2) by (auto dest: in_set_takeD in_set_dropD)
  have "sum_list (map sz xs)
      = sum_list (map sz (take i xs @ xs ! i # drop (Suc i) xs))"
    by (rule arg_cong [OF xs])
  then have "sum_list (map sz xs)
      = sum_list (map sz (take i xs)) + sz (xs ! i) + sum_list (map sz (drop (Suc i) xs))"
    by simp
  with assms(3,4) have le: "sum_list (map sz (take i xs)) + sum_list (map sz (drop (Suc i) xs)) \<le> 0"
    by (simp add: estimate_def)
  have t: "take i xs = []"
  proof (rule ccontr)
    assume "take i xs \<noteq> []"
    from sum_sizes_pos [OF p(1) this] sum_sizes_nonneg [OF p(2)] le show False by linarith
  qed
  have d: "drop (Suc i) xs = []"
  proof (rule ccontr)
    assume "drop (Suc i) xs \<noteq> []"
    from sum_sizes_pos [OF p(2) this] sum_sizes_nonneg [OF p(1)] le show False by linarith
  qed
  show ?thesis by (rule trans [OF xs]) (simp only: t d append_Nil)
qed

lemma within_budget_nonempty: "list_all (within_budget B sz) css \<Longrightarrow> list_all (\<lambda>c. c \<noteq> []) css"
  by (simp add: list_all_iff within_budget_def)

lemma estimate_list_size_of:
  "estimate list_size_of c = claimed_estimate (dumps None) c"
  by (induction c) (simp_all add: estimate_def claimed_estimate_def list_size_of_def)

lemma estimate_dict_size_of:
  "estimate dict_size_of c = 2 + (\<Sum>kv\<leftarrow>c. int (byte_len (pair_text kv)))"
  by (induction c) (simp_all add: estimate_def dict_size_of_def pair_text_def)

lemma list_loop_size:
  "list_loop max_size items ([], [], 2) = Inr (chunks, current_chunk, current_size)
   \<Longrightarrow> current_size = estimate list_size_of current_chunk"
proof -
  assume a: "list_loop max_size items ([], [], 2) = Inr (chunks, current_chunk, current_size)"
  then have "pack_loop max_size list_size_of items ([], [], 2) = (chunks, current_chunk, current_size)"
    by (simp add: list_loop_eq split: if_splits)
  with pack_loop_inv [OF pack_inv_init, of max_size list_size_of items]
  show ?thesis by (simp add: pack_inv_def)
qed

lemma dict_loop_size:
  "distinct (map fst kvs)
   \<Longrightarrow> dict_loop max_size kvs ([], [], 2) = Inr (chunks, current_chunk, current_size)
   \<Longrightarrow> current_size = estimate dict_size_of current_chunk"
proof -
  assume d: "distinct (map fst kvs)"
    and a: "dict_loop max_size kvs ([], [], 2) = Inr (chunks, current_chunk, current_size)"
  from d have "distinct (map fst ([] @ kvs))" by simp
  from dict_loop_eq [OF this, of max_size "[]" 2] a
  have "pack_loop max_size dict_size_of kvs ([], [], 2) = (chunks, current_chunk, current_size)"
    by (simp split: if_splits)
  with pack_loop_inv [OF pack_inv_init, of max_size dict_size_of kvs]
  show ?thesis by (simp add: pack_inv_def)
qed

lemmas ev2 = ev byte_len_def list_size_of_def dict_size_of_def estimate_def


text \<open>
  An element of size at least \<open>B - 2\<close> ends up alone: chunk \<open>j\<close> is this element, and the
  chunks before \<open>j\<close> are what the loop over the elements before it, flushed, gives.
\<close>

lemma pack_isolates_prefix:
  assumes "i < length xs" and "B - 2 \<le> sz (xs ! i)"
    and "csize = estimate sz cur"
    and "\<forall>y\<in>set cur. 0 < sz y" and "\<forall>y\<in>set xs. 0 < sz y"
  shows "\<exists>j. j < length (flush_remaining (pack_loop B sz xs (chunks, cur, csize)))
            \<and> flush_remaining (pack_loop B sz xs (chunks, cur, csize)) ! j = [xs ! i]
            \<and> take j (flush_remaining (pack_loop B sz xs (chunks, cur, csize)))
                = flush_remaining (pack_loop B sz (take i xs) (chunks, cur, csize))"
  using assms
proof (induction xs arbitrary: i chunks cur csize)
  case Nil
  then show ?case by simp
next
  case (Cons x xs)
  define fin where "fin = flush_remaining (pack_loop B sz (x # xs) (chunks, cur, csize))"
  define pre where "pre = flush_remaining (chunks, cur, csize)"
  have pre_eq: "pre = chunks @ (if cur \<noteq> [] then [cur] else [])"
    by (simp add: pre_def flush_remaining_def)
  show ?case
  proof (cases i)
    case 0
    with Cons.prems have big: "B - 2 \<le> sz x" by simp
    have "\<exists>more. fin = (pre @ [[x]]) @ more"
    proof (cases "B - 2 < sz x")
      case True
      then have "pack_step B sz x (chunks, cur, csize)
          = (pre @ [[x]], [], if cur \<noteq> [] then 2 else csize)"
        by (simp add: pack_step_def pre_eq)
      then obtain s1 where st: "pack_step B sz x (chunks, cur, csize) = (pre @ [[x]], [], s1)"
        by blast
      from flush_extends [of B sz xs "pre @ [[x]]" "[]" s1] st
      show ?thesis by (auto simp: fin_def)
    next
      case False
      with big have eq: "sz x = B - 2" by simp
      have pos: "cur \<noteq> [] \<Longrightarrow> 2 < csize"
      proof -
        assume "cur \<noteq> []"
        then obtain y ys where c: "cur = y # ys" by (cases cur) auto
        have "0 \<le> sum_list (map sz ys)"
          using Cons.prems(4) c by (intro sum_list_nonneg) auto
        moreover have "0 < sz y" using Cons.prems(4) c by simp
        ultimately show "2 < csize" using Cons.prems(3) c by (simp add: estimate_def)
      qed
      have emp: "cur = [] \<Longrightarrow> csize = 2" using Cons.prems(3) by simp
      have st: "pack_step B sz x (chunks, cur, csize) = (pre, [x], B)"
        using eq pos emp by (cases "cur = []") (simp_all add: pack_step_def pre_eq)
      from pack_full_closes [of "[x]" B B xs sz pre] Cons.prems(5) st
      show ?thesis by (auto simp: fin_def)
    qed
    then obtain more where fin: "fin = (pre @ [[x]]) @ more" by blast
    have "length pre < length fin \<and> fin ! length pre = [x] \<and> take (length pre) fin = pre"
      by (simp add: fin nth_append)
    with 0 show ?thesis
      unfolding fin_def pre_def by (intro exI [of _ "length pre"]) (simp add: pre_def)
  next
    case (Suc k)
    obtain c1 u1 s1 where st: "pack_step B sz x (chunks, cur, csize) = (c1, u1, s1)"
      by (cases "pack_step B sz x (chunks, cur, csize)") auto
    have s1: "s1 = estimate sz u1" and u1: "\<forall>y\<in>set u1. 0 < sz y"
      using st Cons.prems(3,4,5) by (auto simp: pack_step_def split: if_splits)
    from Suc Cons.prems have k: "k < length xs" "B - 2 \<le> sz (xs ! k)" "\<forall>y\<in>set xs. 0 < sz y"
      by simp_all
    from Cons.IH [OF k(1) k(2) s1 u1 k(3), of c1] obtain j where
      j: "j < length (flush_remaining (pack_loop B sz xs (c1, u1, s1)))"
         "flush_remaining (pack_loop B sz xs (c1, u1, s1)) ! j = [xs ! k]"
         "take j (flush_remaining (pack_loop B sz xs (c1, u1, s1)))
            = flush_remaining (pack_loop B sz (take k xs) (c1, u1, s1))"
      by blast
    have fin: "flush_remaining (pack_loop B sz (x # xs) (chunks, cur, csize))
        = flush_remaining (pack_loop B sz xs (c1, u1, s1))"
      using st by simp
    have pfx: "flush_remaining (pack_loop B sz (take i (x # xs)) (chunks, cur, csize))
        = flush_remaining (pack_loop B sz (take k xs) (c1, u1, s1))"
      using st Suc by simp
    have "(x # xs) ! i = xs ! k" using Suc by simp
    with j show ?thesis unfolding fin pfx by (intro exI [of _ j]) simp
  qed
qed

lemma flush_init_isolates_prefix:
  assumes "i < length xs" and "B - 2 \<le> sz (xs ! i)" and "\<forall>y\<in>set xs. 0 < sz y"
  shows "\<exists>j. j < length (flush_remaining (pack_loop B sz xs ([], [], 2)))
            \<and> flush_remaining (pack_loop B sz xs ([], [], 2)) ! j = [xs ! i]
            \<and> take j (flush_remaining (pack_loop B sz xs ([], [], 2)))
                = flush_remaining (pack_loop B sz (take i xs) ([], [], 2))
            \<and> concat (take j (flush_remaining (pack_loop B sz xs ([], [], 2)))) = take i xs"
proof -
  have e: "(2::int) = estimate sz []" by simp
  have n: "\<forall>y\<in>set []. 0 < sz y" by simp
  from pack_isolates_prefix [of i xs B sz 2 "[]" "[]", OF assms(1) assms(2) e n assms(3)]
  obtain j where j: "j < length (flush_remaining (pack_loop B sz xs ([], [], 2)))"
    "flush_remaining (pack_loop B sz xs ([], [], 2)) ! j = [xs ! i]"
    "take j (flush_remaining (pack_loop B sz xs ([], [], 2)))
       = flush_remaining (pack_loop B sz (take i xs) ([], [], 2))"
    by blast
  from j(3) have "concat (take j (flush_remaining (pack_loop B sz xs ([], [], 2)))) = take i xs"
    by (simp add: flush_init_contents)
  with j show ?thesis by blast
qed

lemma list_all_take: "list_all P xs \<Longrightarrow> list_all P (take n xs)"
  by (auto simp: list_all_iff dest: in_set_takeD)

lemma flush_remaining_cases:
  "pack_loop B sz xs st0 = (chunks, cur, csize)
   \<Longrightarrow> flush_remaining (pack_loop B sz xs st0) = (if cur \<noteq> [] then chunks @ [cur] else chunks)"
  by (simp add: flush_remaining_def)


section \<open>Properties of the relation\<close>

lemma list_run_unique:
  "list_run max_size items st r \<Longrightarrow> list_run max_size items st r' \<Longrightarrow> r = r'"
proof (induction arbitrary: r' rule: list_run.induct)
  case (list_done st)
  from list_done.prems show ?case
    by (rule list_run.cases) simp_all
next
  case (list_raise item e rest st)
  from list_raise.prems show ?case
    by (rule list_run.cases) (use list_raise.hyps in simp_all)
next
  case (list_alone_flush item item_size current_chunk rest chunks r current_size)
  from list_alone_flush.prems show ?case
    by (rule list_run.cases) (use list_alone_flush.hyps in \<open>auto intro: list_alone_flush.IH\<close>)
next
  case (list_alone item item_size current_chunk rest chunks current_size r)
  from list_alone.prems show ?case
    by (rule list_run.cases) (use list_alone.hyps in \<open>auto intro: list_alone.IH\<close>)
next
  case (list_new_chunk item item_size current_size rest chunks current_chunk r)
  from list_new_chunk.prems show ?case
    by (rule list_run.cases) (use list_new_chunk.hyps in \<open>auto intro: list_new_chunk.IH\<close>)
next
  case (list_append item item_size current_size rest chunks current_chunk r)
  from list_append.prems show ?case
    by (rule list_run.cases) (use list_append.hyps in \<open>auto intro: list_append.IH\<close>)
qed

lemma dict_run_unique:
  "dict_run max_size kvs st r \<Longrightarrow> dict_run max_size kvs st r' \<Longrightarrow> r = r'"
proof (induction arbitrary: r' rule: dict_run.induct)
  case (dict_done st)
  from dict_done.prems show ?case
    by (rule dict_run.cases) simp_all
next
  case (dict_raise key val e rest st)
  from dict_raise.prems show ?case
    by (rule dict_run.cases) (use dict_raise.hyps in simp_all)
next
  case (dict_alone_flush key val item_size current_chunk rest chunks r current_size)
  from dict_alone_flush.prems show ?case
    by (rule dict_run.cases) (use dict_alone_flush.hyps in \<open>auto intro: dict_alone_flush.IH\<close>)
next
  case (dict_alone key val item_size current_chunk rest chunks current_size r)
  from dict_alone.prems show ?case
    by (rule dict_run.cases) (use dict_alone.hyps in \<open>auto intro: dict_alone.IH\<close>)
next
  case (dict_new_chunk key val item_size current_size rest chunks current_chunk r)
  from dict_new_chunk.prems show ?case
    by (rule dict_run.cases) (use dict_new_chunk.hyps in \<open>auto intro: dict_new_chunk.IH\<close>)
next
  case (dict_append key val item_size current_size rest chunks current_chunk r)
  from dict_append.prems show ?case
    by (rule dict_run.cases) (use dict_append.hyps in \<open>auto intro: dict_append.IH\<close>)
qed


text \<open>Every call has an outcome, the one the functions compute.\<close>

lemma list_run_list_loop: "list_run max_size items st (list_loop max_size items st)"
proof (induction items arbitrary: st)
  case Nil
  show ?case by (simp add: list_run.list_done)
next
  case (Cons item rest)
  obtain chunks current_chunk current_size where st: "st = (chunks, current_chunk, current_size)"
    by (cases st)
  show ?case
  proof (cases "list_item_size item")
    case (Inl e)
    then show ?thesis by (simp add: list_step_def st list_run.list_raise)
  next
    case (Inr item_size)
    consider (a) "item_size > max_size - 2" "current_chunk \<noteq> []"
      | (b) "item_size > max_size - 2" "current_chunk = []"
      | (c) "\<not> item_size > max_size - 2" "current_size + item_size > max_size"
      | (d) "\<not> item_size > max_size - 2" "\<not> current_size + item_size > max_size"
      by blast
    then show ?thesis
    proof cases
      case a
      with Inr Cons [of "((chunks @ [current_chunk]) @ [[item]], [], 2)"] show ?thesis
        unfolding st by (intro list_run.list_alone_flush [OF Inr]) (simp_all add: list_step_def)
    next
      case b
      with Inr Cons [of "(chunks @ [[item]], current_chunk, current_size)"] show ?thesis
        unfolding st by (intro list_run.list_alone [OF Inr]) (simp_all add: list_step_def)
    next
      case c
      with Inr Cons [of "(chunks @ [current_chunk], [item], 2 + item_size)"] show ?thesis
        unfolding st by (intro list_run.list_new_chunk [OF Inr]) (simp_all add: list_step_def)
    next
      case d
      with Inr Cons [of "(chunks, current_chunk @ [item], current_size + item_size)"]
      show ?thesis
        unfolding st by (intro list_run.list_append [OF Inr]) (simp_all add: list_step_def)
    qed
  qed
qed

lemma dict_run_dict_loop: "dict_run max_size kvs st (dict_loop max_size kvs st)"
proof (induction kvs arbitrary: st)
  case Nil
  show ?case by (simp add: dict_run.dict_done)
next
  case (Cons kv rest)
  obtain chunks current_chunk current_size where st: "st = (chunks, current_chunk, current_size)"
    by (cases st)
  obtain key val where kv: "kv = (key, val)" by (cases kv)
  show ?case
  proof (cases "dict_item_size key val")
    case (Inl e)
    then show ?thesis by (simp add: dict_step_def st kv dict_run.dict_raise)
  next
    case (Inr item_size)
    consider (a) "item_size > max_size - 2" "current_chunk \<noteq> []"
      | (b) "item_size > max_size - 2" "current_chunk = []"
      | (c) "\<not> item_size > max_size - 2" "current_size + item_size > max_size"
      | (d) "\<not> item_size > max_size - 2" "\<not> current_size + item_size > max_size"
      by blast
    then show ?thesis
    proof cases
      case a
      with Inr Cons [of "((chunks @ [current_chunk]) @ [[(key, val)]], [], 2)"] show ?thesis
        unfolding st kv by (intro dict_run.dict_alone_flush [OF Inr]) (simp_all add: dict_step_def)
    next
      case b
      with Inr Cons [of "(chunks @ [[(key, val)]], current_chunk, current_size)"] show ?thesis
        unfolding st kv by (intro dict_run.dict_alone [OF Inr]) (simp_all add: dict_step_def)
    next
      case c
      with Inr Cons [of "(chunks @ [current_chunk], [(key, val)], 2 + item_size)"] show ?thesis
        unfolding st kv by (intro dict_run.dict_new_chunk [OF Inr]) (simp_all add: dict_step_def)
    next
      case d
      with Inr Cons [of "(chunks, dict_set current_chunk key val, current_size + item_size)"]
      show ?thesis
        unfolding st kv by (intro dict_run.dict_append [OF Inr]) (simp_all add: dict_step_def)
    qed
  qed
qed

lemma chunks_run_split_chunks: "chunks_run max_size data (split_chunks max_size data)"
proof (cases data)
  case (JList items)
  show ?thesis
  proof (cases "list_loop max_size items ([], [], 2)")
    case (Inl e)
    with list_run_list_loop [of max_size items "([], [], 2)"] show ?thesis
      by (simp add: JList split_chunks_def chunks_run.run_list_raise)
  next
    case (Inr st)
    with list_run_list_loop [of max_size items "([], [], 2)"] show ?thesis
      by (simp add: JList split_chunks_def chunks_run.run_list)
  qed
next
  case (JDict kvs)
  show ?thesis
  proof (cases "str_encode (dumps (Some 2) (JDict kvs))")
    case (Inl e)
    then show ?thesis by (simp add: JDict split_chunks_def chunks_run.run_dict_raise)
  next
    case enc: (Inr json_bytes)
    show ?thesis
    proof (cases "int (length json_bytes) \<le> max_size")
      case True
      with enc show ?thesis by (simp add: JDict split_chunks_def chunks_run.run_dict_whole)
    next
      case False
      show ?thesis
      proof (cases "dict_loop max_size kvs ([], [], 2)")
        case (Inl e)
        with dict_run_dict_loop [of max_size kvs "([], [], 2)"] enc False show ?thesis
          by (simp add: JDict split_chunks_def chunks_run.run_dict_split_raise)
      next
        case (Inr st)
        with dict_run_dict_loop [of max_size kvs "([], [], 2)"] enc False show ?thesis
          by (simp add: JDict split_chunks_def chunks_run.run_dict_split)
      qed
    qed
  qed
qed (simp_all add: split_chunks_def chunks_run.run_other)


section \<open>Saving the chunks\<close>

text \<open>
  Every element of a list and every pair of a mapping has been encoded by the time the
  chunks are saved, so the dump of a chunk of a list or of a mapping does not raise and
  the function returns the number of chunks. Only the dump of a value of another shape
  can raise (\<open>split_json_data_scalar_example\<close>).
\<close>

lemma encodable_list_chunk:
  "list_all json_encodable c \<Longrightarrow> encodable (dumps ind (JList c))"
proof -
  assume a: "list_all json_encodable c"
  have "encodable (iterencode ind 1 x)" if "x \<in> set c" for x
    using a that encodable_iterencode [of ind 1 x None 0]
    by (simp add: list_all_iff json_encodable_def dumps_def)
  then show ?thesis
    by (simp add: dumps_def encodable_join_str list_all_iff)
qed

lemma encodable_dict_chunk:
  "list_all pair_encodable c \<Longrightarrow> encodable (dumps ind (JDict c))"
proof -
  assume a: "list_all pair_encodable c"
  have "encodable (encode_basestring (fst kv)) \<and> encodable (iterencode ind 1 (snd kv))"
    if "kv \<in> set c" for kv
  proof -
    from a that have "encodable (dumps None (JDict [kv]))"
      by (simp add: list_all_iff pair_encodable_def)
    then have "encodable (encode_basestring (fst kv)) \<and> encodable (iterencode None 1 (snd kv))"
      by (simp add: dumps_def case_prod_unfold)
    then show ?thesis using encodable_iterencode [of ind 1 "snd kv" None 1] by simp
  qed
  then show ?thesis
    by (simp add: dumps_def encodable_join_str list_all_iff case_prod_unfold)
qed

lemma chunks_of_elements:
  "concat css = xs \<Longrightarrow> list_all P xs \<Longrightarrow> list_all (list_all P) css"
  by (auto simp: list_all_iff)

lemma save_chunks_returns:
  "list_all (\<lambda>c. encodable (dumps (Some 2) c)) chunks
   \<Longrightarrow> snd (save_chunks output_dir i chunks) = None"
proof (induction chunks arbitrary: i)
  case Nil
  show ?case by simp
next
  case (Cons c chunks)
  then have "snd (save_chunks output_dir (i + 1) chunks) = None" by simp
  with Cons.prems show ?case
    by (cases "save_chunks output_dir (i + 1) chunks") (simp add: str_encode_eq Let_def)
qed

lemma containers_are_saved:
  assumes "split_chunks max_size data = Inr chunks"
    and "data = JList items \<or> data = JDict kvs \<and> distinct (map fst kvs)"
  shows "snd (split_json_data_at max_size data typename output_dir) = Inr (length chunks)"
proof -
  from assms(2) have "list_all (\<lambda>c. encodable (dumps (Some 2) c)) chunks"
  proof
    assume JList: "data = JList items"
    with assms(1) have enc: "list_all json_encodable items"
      and c: "chunks = map JList (flush_remaining (pack_loop max_size list_size_of items ([], [], 2)))"
      by (auto simp: split_chunks_list split: if_splits)
    from chunks_of_elements [OF flush_init_contents enc]
    show ?thesis by (simp add: c list_all_iff encodable_list_chunk)
  next
    assume "data = JDict kvs \<and> distinct (map fst kvs)"
    then have JDict: "data = JDict kvs" and d: "distinct (map fst kvs)" by simp_all
    from assms(1) JDict d have enc: "json_encodable (JDict kvs)"
      by (auto simp: split_chunks_dict split: if_splits)
    then have p: "list_all pair_encodable kvs" by (rule encodable_dict_pairs)
    from assms(1) JDict d enc have "chunks = [JDict kvs]
        \<or> chunks = map JDict (flush_remaining (pack_loop max_size dict_size_of kvs ([], [], 2)))"
      by (auto simp: split_chunks_dict split: if_splits)
    then show ?thesis
    proof
      assume "chunks = [JDict kvs]"
      with p show ?thesis by (simp add: encodable_dict_chunk)
    next
      assume c: "chunks = map JDict (flush_remaining (pack_loop max_size dict_size_of kvs ([], [], 2)))"
      from chunks_of_elements [OF flush_init_contents p]
      show ?thesis by (simp add: c list_all_iff encodable_dict_chunk)
    qed
  qed
  from save_chunks_returns [OF this, of output_dir 0] assms(1) show ?thesis
    by (cases "save_chunks output_dir 0 chunks") (simp add: split_json_data_at_def)
qed

lemma split_json_data_example:
  "split_json_data_at 9 (JDict [(py ''a'', JInt 1), (py ''b'', JInt 2)]) (py ''keys'')
       [py ''data'', py ''keys'']
     = ([Makedirs [py ''data'', py ''keys''],
         Open_write [py ''data'', py ''keys'', py ''0.json''],
         Dumped [py ''data'', py ''keys'', py ''0.json'']
           [123, 10, 32, 32, 34, 97, 34, 58, 32, 49, 10, 125],
         Open_write [py ''data'', py ''keys'', py ''1.json''],
         Dumped [py ''data'', py ''keys'', py ''1.json'']
           [123, 10, 32, 32, 34, 98, 34, 58, 32, 50, 10, 125]],
        Inr 2)"
  by (simp add: ev split_json_data_at_def Let_def)

lemma split_json_data_scalar_example:
  "split_json_data_at 9 (JStr [55296]) (py ''keys'') []
     = ([Makedirs [], Open_write [py ''0.json'']], Inl UnicodeEncodeError)"
  by (simp add: ev split_json_data_at_def Let_def)


section \<open>The claims\<close>

text \<open>
  In every statement \<open>max_size\<close> is the budget. No statement needs it to be positive:
  each holds for every integer budget.
\<close>

text \<open>
  \<^bold>\<open>C1\<close>. Concatenating the chunks of a list in order gives the list back, and so does
  merging the chunks of a mapping in order give the mapping back, keys in the same order
  with the same values. The function returns these chunks whenever the dataset can be
  encoded as UTF-8; otherwise \<^verbatim>\<open>encode\<close> raises and there are no chunks
  (\<open>split_chunks_list\<close>, \<open>split_chunks_dict\<close>). The keys of a dict are distinct.
\<close>

theorem chunks_reproduce_dataset:
  "(list_all json_encodable items \<longrightarrow>
      (\<exists>css. split_chunks max_size (JList items) = Inr (map JList css) \<and> concat css = items))
   \<and> (distinct (map fst kvs) \<and> json_encodable (JDict kvs) \<longrightarrow>
      (\<exists>dss. split_chunks max_size (JDict kvs) = Inr (map JDict dss)
         \<and> concat dss = kvs \<and> foldl dict_update [] dss = kvs))"
proof (intro conjI impI)
  assume "list_all json_encodable items"
  then show "\<exists>css. split_chunks max_size (JList items) = Inr (map JList css) \<and> concat css = items"
    by (intro exI [of _ "flush_remaining (pack_loop max_size list_size_of items ([], [], 2))"])
      (simp add: split_chunks_list flush_init_contents)
next
  assume a: "distinct (map fst kvs) \<and> json_encodable (JDict kvs)"
  define dss where "dss =
    (if int (byte_len (dumps (Some 2) (JDict kvs))) \<le> max_size then [kvs]
     else flush_remaining (pack_loop max_size dict_size_of kvs ([], [], 2)))"
  have c: "concat dss = kvs" by (simp add: dss_def flush_init_contents)
  with a have "distinct (map fst ([] @ concat dss))" by simp
  from foldl_dict_update [OF this] c have m: "foldl dict_update [] dss = kvs" by simp
  from a have "split_chunks max_size (JDict kvs) = Inr (map JDict dss)"
    by (simp add: split_chunks_dict dss_def)
  with c m show "\<exists>dss. split_chunks max_size (JDict kvs) = Inr (map JDict dss)
         \<and> concat dss = kvs \<and> foldl dict_update [] dss = kvs" by blast
qed

theorem chunks_reproduce_dataset_witness:
  "list_all json_encodable [JInt 1, JStr (py ''ab''), JNull]
   \<and> (\<exists>css. split_chunks 10 (JList [JInt 1, JStr (py ''ab''), JNull]) = Inr (map JList css)
         \<and> concat css = [JInt 1, JStr (py ''ab''), JNull])
   \<and> distinct (map fst [(py ''a'', JInt 1), (py ''b'', JInt 2)])
   \<and> json_encodable (JDict [(py ''a'', JInt 1), (py ''b'', JInt 2)])
   \<and> (\<exists>dss. split_chunks 17 (JDict [(py ''a'', JInt 1), (py ''b'', JInt 2)]) = Inr (map JDict dss)
         \<and> concat dss = [(py ''a'', JInt 1), (py ''b'', JInt 2)]
         \<and> foldl dict_update [] dss = [(py ''a'', JInt 1), (py ''b'', JInt 2)])
   \<and> split_chunks 10 (JList [JInt 1, JStr (py ''ab''), JNull])
     = Inr [JList [JInt 1, JStr (py ''ab'')], JList [JNull]]
   \<and> split_chunks 17 (JDict [(py ''a'', JInt 1), (py ''b'', JInt 2)])
     = Inr [JDict [(py ''a'', JInt 1)], JDict [(py ''b'', JInt 2)]]"
proof -
  have r1: "split_chunks 10 (JList [JInt 1, JStr (py ''ab''), JNull])
     = Inr [JList [JInt 1, JStr (py ''ab'')], JList [JNull]]"
    by (simp add: ev)
  have r2: "split_chunks 17 (JDict [(py ''a'', JInt 1), (py ''b'', JInt 2)])
     = Inr [JDict [(py ''a'', JInt 1)], JDict [(py ''b'', JInt 2)]]"
    by (simp add: ev)
  have h1: "list_all json_encodable [JInt 1, JStr (py ''ab''), JNull]"
    by (simp add: ev)
  have h2: "distinct (map fst [(py ''a'', JInt 1), (py ''b'', JInt 2)])
      \<and> json_encodable (JDict [(py ''a'', JInt 1), (py ''b'', JInt 2)])"
    by (simp add: ev)
  from h1 h2 r1 r2 chunks_reproduce_dataset
    [of "[JInt 1, JStr (py ''ab''), JNull]" 10 "[(py ''a'', JInt 1), (py ''b'', JInt 2)]"]
    chunks_reproduce_dataset
    [of "[JInt 1, JStr (py ''ab''), JNull]" 17 "[(py ''a'', JInt 1), (py ''b'', JInt 2)]"]
  show ?thesis by blast
qed



text \<open>
  \<^bold>\<open>C2\<close>. Every chunk with more than one element has an estimated content size within
  the budget, and a chunk whose estimate exceeds the budget holds exactly one element,
  one that is too large on its own (\<^verbatim>\<open>item_size > MAX_FILE_SIZE - 2\<close>). The estimate
  is the container overhead 2 and the sizes the loop adds up. For a mapping returned
  whole, the estimate is at most the length of the indented encoding, which fits the
  budget (\<open>estimate_le_indented\<close>).
\<close>

theorem chunks_within_budget:
  "(list_all json_encodable items \<longrightarrow>
      (\<exists>css. split_chunks max_size (JList items) = Inr (map JList css)
         \<and> list_all (\<lambda>c. (1 < length c \<longrightarrow> estimate list_size_of c \<le> max_size)
               \<and> (max_size < estimate list_size_of c
                    \<longrightarrow> length c = 1 \<and> max_size - 2 < list_size_of (hd c))) css))
   \<and> (distinct (map fst kvs) \<and> json_encodable (JDict kvs) \<longrightarrow>
      (\<exists>dss. split_chunks max_size (JDict kvs) = Inr (map JDict dss)
         \<and> list_all (\<lambda>c. (1 < length c \<longrightarrow> estimate dict_size_of c \<le> max_size)
               \<and> (max_size < estimate dict_size_of c
                    \<longrightarrow> length c = 1 \<and> max_size - 2 < dict_size_of (hd c))) dss))"
proof (intro conjI impI)
  assume a: "list_all json_encodable items"
  define css where "css = flush_remaining (pack_loop max_size list_size_of items ([], [], 2))"
  have "list_all (within_budget max_size list_size_of) css"
    unfolding css_def by (rule flush_init_within_budget)
  then have "list_all (\<lambda>c. (1 < length c \<longrightarrow> estimate list_size_of c \<le> max_size)
               \<and> (max_size < estimate list_size_of c
                    \<longrightarrow> length c = 1 \<and> max_size - 2 < list_size_of (hd c))) css"
    unfolding list_all_iff using within_budget_bounds by blast
  moreover from a have "split_chunks max_size (JList items) = Inr (map JList css)"
    by (simp add: split_chunks_list css_def)
  ultimately show "\<exists>css. split_chunks max_size (JList items) = Inr (map JList css)
         \<and> list_all (\<lambda>c. (1 < length c \<longrightarrow> estimate list_size_of c \<le> max_size)
               \<and> (max_size < estimate list_size_of c
                    \<longrightarrow> length c = 1 \<and> max_size - 2 < list_size_of (hd c))) css"
    by blast
next
  assume a: "distinct (map fst kvs) \<and> json_encodable (JDict kvs)"
  let ?ok = "\<lambda>c. (1 < length c \<longrightarrow> estimate dict_size_of c \<le> max_size)
               \<and> (max_size < estimate dict_size_of c
                    \<longrightarrow> length c = 1 \<and> max_size - 2 < dict_size_of (hd c))"
  show "\<exists>dss. split_chunks max_size (JDict kvs) = Inr (map JDict dss) \<and> list_all ?ok dss"
  proof (cases "int (byte_len (dumps (Some 2) (JDict kvs))) \<le> max_size")
    case True
    with estimate_le_indented [of kvs] have "estimate dict_size_of kvs \<le> max_size" by simp
    then have "list_all ?ok [kvs]" by simp
    moreover from a True have "split_chunks max_size (JDict kvs) = Inr (map JDict [kvs])"
      by (simp add: split_chunks_dict)
    ultimately show ?thesis by blast
  next
    case False
    define dss where "dss = flush_remaining (pack_loop max_size dict_size_of kvs ([], [], 2))"
    have "list_all (within_budget max_size dict_size_of) dss"
      unfolding dss_def by (rule flush_init_within_budget)
    then have "list_all ?ok dss"
      unfolding list_all_iff using within_budget_bounds by blast
    moreover from a False have "split_chunks max_size (JDict kvs) = Inr (map JDict dss)"
      by (simp add: split_chunks_dict dss_def)
    ultimately show ?thesis by blast
  qed
qed

theorem chunks_within_budget_witness:
  "list_all json_encodable [JInt 1, JInt 2, JStr (py ''abcdefgh'')]
   \<and> (\<exists>css. split_chunks 8 (JList [JInt 1, JInt 2, JStr (py ''abcdefgh'')]) = Inr (map JList css)
         \<and> list_all (\<lambda>c. (1 < length c \<longrightarrow> estimate list_size_of c \<le> 8)
               \<and> (8 < estimate list_size_of c
                    \<longrightarrow> length c = 1 \<and> 8 - 2 < list_size_of (hd c))) css)
   \<and> distinct (map fst [(py ''a'', JInt 1), (py ''b'', JInt 2)])
   \<and> json_encodable (JDict [(py ''a'', JInt 1), (py ''b'', JInt 2)])
   \<and> (\<exists>dss. split_chunks 17 (JDict [(py ''a'', JInt 1), (py ''b'', JInt 2)]) = Inr (map JDict dss)
         \<and> list_all (\<lambda>c. (1 < length c \<longrightarrow> estimate dict_size_of c \<le> 17)
               \<and> (17 < estimate dict_size_of c
                    \<longrightarrow> length c = 1 \<and> 17 - 2 < dict_size_of (hd c))) dss)
   \<and> split_chunks 8 (JList [JInt 1, JInt 2, JStr (py ''abcdefgh'')])
     = Inr [JList [JInt 1, JInt 2], JList [JStr (py ''abcdefgh'')]]
   \<and> split_chunks 17 (JDict [(py ''a'', JInt 1), (py ''b'', JInt 2)])
     = Inr [JDict [(py ''a'', JInt 1)], JDict [(py ''b'', JInt 2)]]"
proof -
  have r1: "split_chunks 8 (JList [JInt 1, JInt 2, JStr (py ''abcdefgh'')])
     = Inr [JList [JInt 1, JInt 2], JList [JStr (py ''abcdefgh'')]]"
    by (simp add: ev)
  have r2: "split_chunks 17 (JDict [(py ''a'', JInt 1), (py ''b'', JInt 2)])
     = Inr [JDict [(py ''a'', JInt 1)], JDict [(py ''b'', JInt 2)]]"
    by (simp add: ev)
  have h1: "list_all json_encodable [JInt 1, JInt 2, JStr (py ''abcdefgh'')]"
    by (simp add: ev)
  have h2: "distinct (map fst [(py ''a'', JInt 1), (py ''b'', JInt 2)])
      \<and> json_encodable (JDict [(py ''a'', JInt 1), (py ''b'', JInt 2)])"
    by (simp add: ev)
  from h1 h2 r1 r2
    chunks_within_budget [of "[JInt 1, JInt 2, JStr (py ''abcdefgh'')]" 8
      "[(py ''a'', JInt 1), (py ''b'', JInt 2)]"]
    chunks_within_budget [of "[JInt 1, JInt 2, JStr (py ''abcdefgh'')]" 17
      "[(py ''a'', JInt 1), (py ''b'', JInt 2)]"]
  show ?thesis by blast
qed

text \<open>
  \<^bold>\<open>C3\<close>. An element whose own encoding has more than \<open>max_size - 3\<close> bytes is alone in
  its chunk, and what was accumulated when the loop reached it has been flushed first,
  as one chunk. The element is element \<open>i\<close> of the dataset and some chunk \<open>j\<close> is exactly
  this element. The loop over the elements before \<open>i\<close> ends with the chunks closed so far,
  \<^verbatim>\<open>chunks\<close>, and the accumulation in progress, \<^verbatim>\<open>current_chunk\<close>; the chunks before \<open>j\<close>
  are these closed chunks, followed by the accumulation as a single chunk when it is not
  empty. So they hold exactly the elements before \<open>i\<close>. The encoding of a key/value pair
  is that of the one-pair dict (line 137). A pair of exactly \<open>max_size - 2\<close> bytes does not
  take the branch of line 140; the overflow test of line 148 and the final flush isolate
  it.
\<close>

theorem large_element_alone:
  "(list_all json_encodable items \<and> i < length items
      \<and> max_size - 3 < int (byte_len (dumps None (items ! i))) \<longrightarrow>
      (\<exists>css j chunks current_chunk current_size.
         split_chunks max_size (JList items) = Inr (map JList css)
         \<and> j < length css \<and> css ! j = [items ! i] \<and> concat (take j css) = take i items
         \<and> list_loop max_size (take i items) ([], [], 2)
              = Inr (chunks, current_chunk, current_size)
         \<and> take j css = (if current_chunk \<noteq> [] then chunks @ [current_chunk] else chunks)))
   \<and> (distinct (map fst kvs) \<and> json_encodable (JDict kvs) \<and> n < length kvs
      \<and> max_size - 3 < int (byte_len (dumps None (JDict [kvs ! n]))) \<longrightarrow>
      (\<exists>dss j chunks current_chunk current_size.
         split_chunks max_size (JDict kvs) = Inr (map JDict dss)
         \<and> j < length dss \<and> dss ! j = [kvs ! n] \<and> concat (take j dss) = take n kvs
         \<and> dict_loop max_size (take n kvs) ([], [], 2)
              = Inr (chunks, current_chunk, current_size)
         \<and> take j dss = (if current_chunk \<noteq> [] then chunks @ [current_chunk] else chunks)))"
proof (intro conjI impI)
  assume a: "list_all json_encodable items \<and> i < length items
      \<and> max_size - 3 < int (byte_len (dumps None (items ! i)))"
  define css where "css = flush_remaining (pack_loop max_size list_size_of items ([], [], 2))"
  obtain chunks cur csize
    where st: "pack_loop max_size list_size_of (take i items) ([], [], 2) = (chunks, cur, csize)"
    by (cases "pack_loop max_size list_size_of (take i items) ([], [], 2)") auto
  from a have big: "max_size - 2 \<le> list_size_of (items ! i)" by (simp add: list_size_of_def)
  have "\<exists>j. j < length css \<and> css ! j = [items ! i]
      \<and> take j css = flush_remaining (pack_loop max_size list_size_of (take i items) ([], [], 2))
      \<and> concat (take j css) = take i items"
    unfolding css_def using a big
    by (intro flush_init_isolates_prefix) (simp_all add: list_size_of_pos)
  then obtain j where j: "j < length css" "css ! j = [items ! i]"
    "take j css = (if cur \<noteq> [] then chunks @ [cur] else chunks)"
    "concat (take j css) = take i items"
    using flush_remaining_cases [OF st] by auto
  from a have "list_all json_encodable (take i items)" by (simp add: list_all_take)
  then have l: "list_loop max_size (take i items) ([], [], 2) = Inr (chunks, cur, csize)"
    by (simp add: list_loop_eq json_encodable_fun [symmetric] st)
  from a have "split_chunks max_size (JList items) = Inr (map JList css)"
    by (simp add: split_chunks_list css_def)
  with j l show "\<exists>css j chunks current_chunk current_size.
         split_chunks max_size (JList items) = Inr (map JList css)
         \<and> j < length css \<and> css ! j = [items ! i] \<and> concat (take j css) = take i items
         \<and> list_loop max_size (take i items) ([], [], 2)
              = Inr (chunks, current_chunk, current_size)
         \<and> take j css = (if current_chunk \<noteq> [] then chunks @ [current_chunk] else chunks)"
    by blast
next
  assume a: "distinct (map fst kvs) \<and> json_encodable (JDict kvs) \<and> n < length kvs
      \<and> max_size - 3 < int (byte_len (dumps None (JDict [kvs ! n])))"
  then have big: "max_size - 2 \<le> dict_size_of (kvs ! n)" by (simp add: dict_size_of_def)
  obtain chunks cur csize
    where st: "pack_loop max_size dict_size_of (take n kvs) ([], [], 2) = (chunks, cur, csize)"
    by (cases "pack_loop max_size dict_size_of (take n kvs) ([], [], 2)") auto
  from a have "list_all pair_encodable kvs" by (simp add: encodable_dict_pairs)
  then have pe: "list_all pair_encodable (take n kvs)" by (rule list_all_take)
  from a have "distinct (map fst ([] @ take n kvs))"
    by (simp add: take_map [symmetric])
  from dict_loop_eq [OF this, of max_size "[]" 2] pe
  have l: "dict_loop max_size (take n kvs) ([], [], 2) = Inr (chunks, cur, csize)"
    by (simp add: pair_encodable_fun [symmetric] st)
  show "\<exists>dss j chunks current_chunk current_size.
         split_chunks max_size (JDict kvs) = Inr (map JDict dss)
         \<and> j < length dss \<and> dss ! j = [kvs ! n] \<and> concat (take j dss) = take n kvs
         \<and> dict_loop max_size (take n kvs) ([], [], 2)
              = Inr (chunks, current_chunk, current_size)
         \<and> take j dss = (if current_chunk \<noteq> [] then chunks @ [current_chunk] else chunks)"
  proof (cases "int (byte_len (dumps (Some 2) (JDict kvs))) \<le> max_size")
    case True
    with estimate_le_indented [of kvs] have "estimate dict_size_of kvs \<le> max_size" by simp
    with a big have "kvs = [kvs ! n]"
      by (intro fitting_large_is_alone [of n kvs dict_size_of max_size])
        (simp_all add: dict_size_of_pos)
    then obtain kv where kv: "kvs = [kv]" by blast
    with a have n0: "n = 0" by simp
    with st have e: "chunks = []" "cur = []" by simp_all
    from kv n0 have "(0::nat) < length [kvs] \<and> [kvs] ! 0 = [kvs ! n]
        \<and> concat (take 0 [kvs]) = take n kvs
        \<and> take 0 [kvs] = (if cur \<noteq> [] then chunks @ [cur] else chunks)"
      by (simp add: e)
    moreover from a True have "split_chunks max_size (JDict kvs) = Inr (map JDict [kvs])"
      by (simp add: split_chunks_dict)
    ultimately show ?thesis using l by blast
  next
    case False
    define dss where "dss = flush_remaining (pack_loop max_size dict_size_of kvs ([], [], 2))"
    have "\<exists>j. j < length dss \<and> dss ! j = [kvs ! n]
        \<and> take j dss = flush_remaining (pack_loop max_size dict_size_of (take n kvs) ([], [], 2))
        \<and> concat (take j dss) = take n kvs"
      unfolding dss_def using a big
      by (intro flush_init_isolates_prefix) (simp_all add: dict_size_of_pos)
    then obtain j where j: "j < length dss" "dss ! j = [kvs ! n]"
      "take j dss = (if cur \<noteq> [] then chunks @ [cur] else chunks)"
      "concat (take j dss) = take n kvs"
      using flush_remaining_cases [OF st] by auto
    moreover from a False have "split_chunks max_size (JDict kvs) = Inr (map JDict dss)"
      by (simp add: split_chunks_dict dss_def)
    ultimately show ?thesis using l by blast
  qed
qed

theorem large_element_alone_witness:
  "list_all json_encodable [JInt 1, JInt 2, JStr (py ''abcdefgh'')]
   \<and> 2 < length [JInt 1, JInt 2, JStr (py ''abcdefgh'')]
   \<and> 8 - 3 < int (byte_len (dumps None ([JInt 1, JInt 2, JStr (py ''abcdefgh'')] ! 2)))
   \<and> (\<exists>css j chunks current_chunk current_size.
         split_chunks 8 (JList [JInt 1, JInt 2, JStr (py ''abcdefgh'')]) = Inr (map JList css)
         \<and> j < length css \<and> css ! j = [[JInt 1, JInt 2, JStr (py ''abcdefgh'')] ! 2]
         \<and> concat (take j css) = take 2 [JInt 1, JInt 2, JStr (py ''abcdefgh'')]
         \<and> list_loop 8 (take 2 [JInt 1, JInt 2, JStr (py ''abcdefgh'')]) ([], [], 2)
              = Inr (chunks, current_chunk, current_size)
         \<and> take j css = (if current_chunk \<noteq> [] then chunks @ [current_chunk] else chunks))
   \<and> distinct (map fst [(py ''a'', JInt 1), (py ''b'', JInt 2)])
   \<and> json_encodable (JDict [(py ''a'', JInt 1), (py ''b'', JInt 2)])
   \<and> 1 < length [(py ''a'', JInt 1), (py ''b'', JInt 2)]
   \<and> 9 - 3 < int (byte_len (dumps None (JDict [[(py ''a'', JInt 1), (py ''b'', JInt 2)] ! 1])))
   \<and> (\<exists>dss j chunks current_chunk current_size.
         split_chunks 9 (JDict [(py ''a'', JInt 1), (py ''b'', JInt 2)]) = Inr (map JDict dss)
         \<and> j < length dss \<and> dss ! j = [[(py ''a'', JInt 1), (py ''b'', JInt 2)] ! 1]
         \<and> concat (take j dss) = take 1 [(py ''a'', JInt 1), (py ''b'', JInt 2)]
         \<and> dict_loop 9 (take 1 [(py ''a'', JInt 1), (py ''b'', JInt 2)]) ([], [], 2)
              = Inr (chunks, current_chunk, current_size)
         \<and> take j dss = (if current_chunk \<noteq> [] then chunks @ [current_chunk] else chunks))
   \<and> split_chunks 8 (JList [JInt 1, JInt 2, JStr (py ''abcdefgh'')])
     = Inr [JList [JInt 1, JInt 2], JList [JStr (py ''abcdefgh'')]]
   \<and> list_loop 8 (take 2 [JInt 1, JInt 2, JStr (py ''abcdefgh'')]) ([], [], 2) = Inr ([], [JInt 1, JInt 2], 6)
   \<and> split_chunks 9 (JDict [(py ''a'', JInt 1), (py ''b'', JInt 2)])
     = Inr [JDict [(py ''a'', JInt 1)], JDict [(py ''b'', JInt 2)]]
   \<and> dict_loop 9 (take 1 [(py ''a'', JInt 1), (py ''b'', JInt 2)]) ([], [], 2) = Inr ([[(py ''a'', JInt 1)]], [], 2)"
proof -
  have r1: "split_chunks 8 (JList [JInt 1, JInt 2, JStr (py ''abcdefgh'')])
     = Inr [JList [JInt 1, JInt 2], JList [JStr (py ''abcdefgh'')]]"
    by (simp add: ev)
  have r2: "split_chunks 9 (JDict [(py ''a'', JInt 1), (py ''b'', JInt 2)])
     = Inr [JDict [(py ''a'', JInt 1)], JDict [(py ''b'', JInt 2)]]"
    by (simp add: ev)
  have r3: "list_loop 8 (take 2 [JInt 1, JInt 2, JStr (py ''abcdefgh'')]) ([], [], 2) = Inr ([], [JInt 1, JInt 2], 6)"
    by (simp add: ev)
  have r4: "dict_loop 9 (take 1 [(py ''a'', JInt 1), (py ''b'', JInt 2)]) ([], [], 2) = Inr ([[(py ''a'', JInt 1)]], [], 2)"
    by (simp add: ev)
  have h1: "list_all json_encodable [JInt 1, JInt 2, JStr (py ''abcdefgh'')]
      \<and> 2 < length [JInt 1, JInt 2, JStr (py ''abcdefgh'')]
      \<and> 8 - 3 < int (byte_len (dumps None ([JInt 1, JInt 2, JStr (py ''abcdefgh'')] ! 2)))"
    by (simp add: ev2)
  have h2: "distinct (map fst [(py ''a'', JInt 1), (py ''b'', JInt 2)])
      \<and> json_encodable (JDict [(py ''a'', JInt 1), (py ''b'', JInt 2)])
      \<and> 1 < length [(py ''a'', JInt 1), (py ''b'', JInt 2)]
      \<and> 9 - 3 < int (byte_len (dumps None (JDict [[(py ''a'', JInt 1), (py ''b'', JInt 2)] ! 1])))"
    by (simp add: ev2)
  from h1 h2 r1 r2 r3 r4
    large_element_alone [of "[JInt 1, JInt 2, JStr (py ''abcdefgh'')]" 2 8
      "[(py ''a'', JInt 1), (py ''b'', JInt 2)]" 1]
    large_element_alone [of "[JInt 1, JInt 2, JStr (py ''abcdefgh'')]" 2 9
      "[(py ''a'', JInt 1), (py ''b'', JInt 2)]" 1]
  show ?thesis by blast
qed

text \<open>
  \<^bold>\<open>C4\<close>, as amended. \<^verbatim>\<open>current_size\<close> is the estimate that the packing decisions
  read. After the loop over any list (hence before every decision, the elements seen so
  far being such a list) it is 2 plus, for each item of the chunk in progress, the
  encoded length of the item and one byte. For a mapping it is 2 plus, for each pair of
  the chunk in progress, the encoded length of the one-pair dict, with no byte added:
  line 138 has no \<^verbatim>\<open>+ 1\<close>.
\<close>

theorem size_estimate_of_packing:
  "(list_loop max_size items ([], [], 2) = Inr (chunks, current_chunk, current_size) \<longrightarrow>
      current_size = claimed_estimate (dumps None) current_chunk)
   \<and> (distinct (map fst kvs)
      \<and> dict_loop max_size kvs ([], [], 2) = Inr (dchunks, dcurrent, dsize) \<longrightarrow>
      dsize = 2 + (\<Sum>kv\<leftarrow>dcurrent. int (byte_len (pair_text kv))))"
proof (intro conjI impI)
  assume "list_loop max_size items ([], [], 2) = Inr (chunks, current_chunk, current_size)"
  from list_loop_size [OF this]
  show "current_size = claimed_estimate (dumps None) current_chunk"
    by (simp add: estimate_list_size_of)
next
  assume a: "distinct (map fst kvs)
      \<and> dict_loop max_size kvs ([], [], 2) = Inr (dchunks, dcurrent, dsize)"
  then have "dsize = estimate dict_size_of dcurrent" by (intro dict_loop_size [of kvs]) auto
  then show "dsize = 2 + (\<Sum>kv\<leftarrow>dcurrent. int (byte_len (pair_text kv)))"
    by (simp add: estimate_dict_size_of)
qed

theorem size_estimate_of_packing_witness:
  "list_loop 10 [JInt 1, JStr (py ''ab''), JNull] ([], [], 2)
     = Inr ([[JInt 1, JStr (py ''ab'')]], [JNull], 7)
   \<and> (7::int) = claimed_estimate (dumps None) [JNull]
   \<and> distinct (map fst [(py ''a'', JInt 1), (py ''b'', JInt 2)])
   \<and> dict_loop 17 [(py ''a'', JInt 1), (py ''b'', JInt 2)] ([], [], 2)
     = Inr ([[(py ''a'', JInt 1)]], [(py ''b'', JInt 2)], 10)
   \<and> (10::int) = 2 + (\<Sum>kv\<leftarrow>[(py ''b'', JInt 2)]. int (byte_len (pair_text kv)))"
proof -
  have h1: "list_loop 10 [JInt 1, JStr (py ''ab''), JNull] ([], [], 2)
     = Inr ([[JInt 1, JStr (py ''ab'')]], [JNull], 7)"
    by (simp add: ev)
  have h2: "distinct (map fst [(py ''a'', JInt 1), (py ''b'', JInt 2)])
      \<and> dict_loop 17 [(py ''a'', JInt 1), (py ''b'', JInt 2)] ([], [], 2)
     = Inr ([[(py ''a'', JInt 1)]], [(py ''b'', JInt 2)], 10)"
    by (simp add: ev)
  from h1 h2
    size_estimate_of_packing [of 10 "[JInt 1, JStr (py ''ab''), JNull]"
      "[[JInt 1, JStr (py ''ab'')]]" "[JNull]" 7 "[(py ''a'', JInt 1), (py ''b'', JInt 2)]"
      "[[(py ''a'', JInt 1)]]" "[(py ''b'', JInt 2)]" 10]
    size_estimate_of_packing [of 17 "[JInt 1, JStr (py ''ab''), JNull]"
      "[[JInt 1, JStr (py ''ab'')]]" "[JNull]" 7 "[(py ''a'', JInt 1), (py ''b'', JInt 2)]"
      "[[(py ''a'', JInt 1)]]" "[(py ''b'', JInt 2)]" 10]
  show ?thesis by blast
qed

text \<open>
  The claim as stated fails for a mapping: with budget 18 the loop over
  \<^verbatim>\<open>{"a": 1, "b": 2}\<close> ends with \<^verbatim>\<open>current_size\<close> 18, where the claimed estimate is
  20, and both pairs share one chunk.
\<close>

theorem size_estimate_of_packing_counterexample:
  "dict_loop 18 [(py ''a'', JInt 1), (py ''b'', JInt 2)] ([], [], 2)
     = Inr ([], [(py ''a'', JInt 1), (py ''b'', JInt 2)], 18)
   \<and> claimed_estimate pair_text [(py ''a'', JInt 1), (py ''b'', JInt 2)] = 20
   \<and> split_chunks 18 (JDict [(py ''a'', JInt 1), (py ''b'', JInt 2)])
     = Inr [JDict [(py ''a'', JInt 1), (py ''b'', JInt 2)]]"
  by (simp add: ev2 claimed_estimate_def pair_text_def)

text \<open>
  \<^bold>\<open>C5\<close>, as amended. Four items of size 30 each and budget 65 give two chunks of two
  items: after the second chunk is opened with the third item its size is 32, and the
  fourth item brings it to 62, within the budget.
\<close>

theorem four_items_budget_65:
  "list_all json_encodable [a, b, c, d]
   \<Longrightarrow> list_size_of a = 30 \<Longrightarrow> list_size_of b = 30
   \<Longrightarrow> list_size_of c = 30 \<Longrightarrow> list_size_of d = 30
   \<Longrightarrow> split_chunks 65 (JList [a, b, c, d]) = Inr [JList [a, b], JList [c, d]]"
  by (simp add: split_chunks_list pack_step_def flush_remaining_def)

theorem four_items_budget_65_witness:
  "list_all json_encodable [item0, item1, item2, item3]
   \<and> list_size_of item0 = 30 \<and> list_size_of item1 = 30
   \<and> list_size_of item2 = 30 \<and> list_size_of item3 = 30
   \<and> split_chunks 65 (JList [item0, item1, item2, item3])
     = Inr [JList [item0, item1], JList [item2, item3]]"
proof -
  have h: "list_all json_encodable [item0, item1, item2, item3]"
    by (simp add: ev item0_def item1_def item2_def item3_def)
  have s: "list_size_of item0 = 30" "list_size_of item1 = 30"
    "list_size_of item2 = 30" "list_size_of item3 = 30"
    by (simp_all add: ev2 item0_def item1_def item2_def item3_def)
  from four_items_budget_65 [OF h s] h s show ?thesis by blast
qed

text \<open>
  The claim as stated fails on four such items: the result is not
  \<^verbatim>\<open>[[item0, item1], [item2], [item3]]\<close>.
\<close>

theorem four_items_budget_65_counterexample:
  "list_item_size item0 = Inr 30 \<and> list_item_size item1 = Inr 30
   \<and> list_item_size item2 = Inr 30 \<and> list_item_size item3 = Inr 30
   \<and> split_chunks 65 (JList [item0, item1, item2, item3])
     \<noteq> Inr [JList [item0, item1], JList [item2], JList [item3]]"
  by (simp add: ev item0_def item1_def item2_def item3_def)

text \<open>
  \<^bold>\<open>C6\<close>. A mapping whose encoding with \<^verbatim>\<open>indent=2\<close> has at most \<open>max_size\<close> bytes is
  returned as one chunk, the mapping itself.
\<close>

theorem whole_mapping_shortcut:
  "str_encode (dumps (Some 2) (JDict kvs)) = Inr json_bytes
   \<Longrightarrow> int (length json_bytes) \<le> max_size
   \<Longrightarrow> split_chunks max_size (JDict kvs) = Inr [JDict kvs]"
  by (simp add: split_chunks_def)

theorem whole_mapping_shortcut_witness:
  "str_encode (dumps (Some 2) (JDict [(py ''a'', JInt 1), (py ''b'', JInt 2)]))
     = Inr [123, 10, 32, 32, 34, 97, 34, 58, 32, 49, 44, 10, 32, 32, 34, 98, 34, 58, 32, 50, 10, 125]
   \<and> int (length [123, 10, 32, 32, 34, 97, 34, 58, 32, 49, 44, 10, 32, 32, 34, 98, 34, 58, 32, 50,
        10, 125 :: nat]) \<le> 22
   \<and> split_chunks 22 (JDict [(py ''a'', JInt 1), (py ''b'', JInt 2)])
     = Inr [JDict [(py ''a'', JInt 1), (py ''b'', JInt 2)]]"
proof -
  have h: "str_encode (dumps (Some 2) (JDict [(py ''a'', JInt 1), (py ''b'', JInt 2)]))
     = Inr [123, 10, 32, 32, 34, 97, 34, 58, 32, 49, 44, 10, 32, 32, 34, 98, 34, 58, 32, 50, 10, 125]"
    by (simp add: ev)
  have l: "int (length [123, 10, 32, 32, 34, 97, 34, 58, 32, 49, 44, 10, 32, 32, 34, 98, 34, 58,
        32, 50, 10, 125 :: nat]) \<le> 22"
    by simp
  from h l whole_mapping_shortcut [OF h l] show ?thesis by blast
qed

text \<open>
  \<^bold>\<open>C7\<close>. An empty list gives no chunk at all, whatever the budget: the output
  directory is made, no file is opened or written, and the function returns 0.
\<close>

theorem empty_list_no_chunks:
  "split_chunks max_size (JList []) = Inr []
   \<and> split_json_data_at max_size (JList []) typename output_dir
       = ([Makedirs output_dir], Inr 0)"
  by (simp add: split_chunks_def split_json_data_at_def flush_remaining_def)

text \<open>
  \<^bold>\<open>C8\<close>. A value that is neither a list nor a dict is returned as one chunk, unchanged,
  and the result is the same for any two budgets.
\<close>

theorem other_shapes_one_chunk:
  "\<not> is_list data \<Longrightarrow> \<not> is_dict data
   \<Longrightarrow> split_chunks max_size data = Inr [data]
       \<and> split_chunks max_size' data = split_chunks max_size data"
  by (cases data) (simp_all add: split_chunks_def)

theorem other_shapes_one_chunk_witness:
  "\<not> is_list (JStr (py ''skins'')) \<and> \<not> is_dict (JStr (py ''skins''))
   \<and> split_chunks 1 (JStr (py ''skins'')) = Inr [JStr (py ''skins'')]
   \<and> split_chunks 81920 (JStr (py ''skins'')) = split_chunks 1 (JStr (py ''skins''))"
  using other_shapes_one_chunk [of "JStr (py ''skins'')" 1 81920] by simp

text \<open>
  \<^bold>\<open>C9\<close>. Two invocations on the same dataset and budget have the same outcome: the
  same chunks, with the same boundaries and the same order, or the same exception. An
  invocation is a derivation of \<open>chunks_run\<close>; the statement says that its rules leave no
  choice, and it fails for rules whose guards overlap.
\<close>

theorem chunking_deterministic:
  "chunks_run max_size data r \<Longrightarrow> chunks_run max_size data r' \<Longrightarrow> r = r'"
proof (induction rule: chunks_run.induct)
  case (run_list items st)
  from run_list.prems show ?case
    by (rule chunks_run.cases) (use run_list.hyps in \<open>auto dest: list_run_unique\<close>)
next
  case (run_list_raise items e)
  from run_list_raise.prems show ?case
    by (rule chunks_run.cases) (use run_list_raise.hyps in \<open>auto dest: list_run_unique\<close>)
next
  case (run_dict_raise kvs e)
  from run_dict_raise.prems show ?case
    by (rule chunks_run.cases) (use run_dict_raise.hyps in auto)
next
  case (run_dict_whole kvs json_bytes)
  from run_dict_whole.prems show ?case
    by (rule chunks_run.cases) (use run_dict_whole.hyps in auto)
next
  case (run_dict_split kvs json_bytes st)
  from run_dict_split.prems show ?case
    by (rule chunks_run.cases) (use run_dict_split.hyps in \<open>auto dest: dict_run_unique\<close>)
next
  case (run_dict_split_raise kvs json_bytes e)
  from run_dict_split_raise.prems show ?case
    by (rule chunks_run.cases)
      (use run_dict_split_raise.hyps in \<open>auto dest: dict_run_unique\<close>)
next
  case (run_other data)
  from run_other.prems show ?case
    by (rule chunks_run.cases) (use run_other.hyps in auto)
qed

theorem chunking_deterministic_witness:
  "chunks_run 10 (JList [JInt 1, JStr (py ''ab''), JNull])
     (Inr [JList [JInt 1, JStr (py ''ab'')], JList [JNull]])
   \<and> chunks_run 10 (JList [JInt 1, JStr (py ''ab''), JNull])
     (split_chunks 10 (JList [JInt 1, JStr (py ''ab''), JNull]))
   \<and> Inr [JList [JInt 1, JStr (py ''ab'')], JList [JNull]]
     = split_chunks 10 (JList [JInt 1, JStr (py ''ab''), JNull])"
proof -
  have e: "split_chunks 10 (JList [JInt 1, JStr (py ''ab''), JNull])
      = Inr [JList [JInt 1, JStr (py ''ab'')], JList [JNull]]"
    by (simp add: ev)
  have h2: "chunks_run 10 (JList [JInt 1, JStr (py ''ab''), JNull])
      (split_chunks 10 (JList [JInt 1, JStr (py ''ab''), JNull]))"
    by (rule chunks_run_split_chunks)
  have h1: "chunks_run 10 (JList [JInt 1, JStr (py ''ab''), JNull])
      (Inr [JList [JInt 1, JStr (py ''ab'')], JList [JNull]])"
    using h2 by (simp only: e)
  from chunking_deterministic [OF h1 h2] h1 h2 show ?thesis by blast
qed

text \<open>
  \<^bold>\<open>C10\<close>, as amended. No chunk of a list is empty, and no chunk of a mapping that has
  at least one key is empty. The empty mapping is returned whole, as one empty chunk,
  when its encoding \<^verbatim>\<open>{}\<close> of two bytes fits the budget, and gives no chunk otherwise.
\<close>

theorem chunks_not_empty:
  "(list_all json_encodable items \<longrightarrow>
      (\<exists>css. split_chunks max_size (JList items) = Inr (map JList css)
         \<and> list_all (\<lambda>c. c \<noteq> []) css))
   \<and> (distinct (map fst kvs) \<and> json_encodable (JDict kvs) \<and> kvs \<noteq> [] \<longrightarrow>
      (\<exists>dss. split_chunks max_size (JDict kvs) = Inr (map JDict dss)
         \<and> list_all (\<lambda>c. c \<noteq> []) dss))
   \<and> split_chunks max_size (JDict []) = Inr (if 2 \<le> max_size then [JDict []] else [])"
proof (intro conjI impI)
  assume a: "list_all json_encodable items"
  define css where "css = flush_remaining (pack_loop max_size list_size_of items ([], [], 2))"
  have "list_all (\<lambda>c. c \<noteq> []) css"
    unfolding css_def by (rule within_budget_nonempty) (rule flush_init_within_budget)
  moreover from a have "split_chunks max_size (JList items) = Inr (map JList css)"
    by (simp add: split_chunks_list css_def)
  ultimately show "\<exists>css. split_chunks max_size (JList items) = Inr (map JList css)
         \<and> list_all (\<lambda>c. c \<noteq> []) css" by blast
next
  assume a: "distinct (map fst kvs) \<and> json_encodable (JDict kvs) \<and> kvs \<noteq> []"
  define dss where "dss =
    (if int (byte_len (dumps (Some 2) (JDict kvs))) \<le> max_size then [kvs]
     else flush_remaining (pack_loop max_size dict_size_of kvs ([], [], 2)))"
  have "list_all (\<lambda>c. c \<noteq> []) (flush_remaining (pack_loop max_size dict_size_of kvs ([], [], 2)))"
    by (rule within_budget_nonempty) (rule flush_init_within_budget)
  with a have "list_all (\<lambda>c. c \<noteq> []) dss" by (simp add: dss_def)
  moreover from a have "split_chunks max_size (JDict kvs) = Inr (map JDict dss)"
    by (simp add: split_chunks_dict dss_def)
  ultimately show "\<exists>dss. split_chunks max_size (JDict kvs) = Inr (map JDict dss)
         \<and> list_all (\<lambda>c. c \<noteq> []) dss" by blast
next
  show "split_chunks max_size (JDict []) = Inr (if 2 \<le> max_size then [JDict []] else [])"
    by (simp add: ev)
qed

theorem chunks_not_empty_witness:
  "list_all json_encodable [JInt 1, JInt 2, JStr (py ''abcdefgh'')]
   \<and> (\<exists>css. split_chunks 8 (JList [JInt 1, JInt 2, JStr (py ''abcdefgh'')]) = Inr (map JList css)
         \<and> list_all (\<lambda>c. c \<noteq> []) css)
   \<and> distinct (map fst [(py ''a'', JInt 1), (py ''b'', JInt 2)])
   \<and> json_encodable (JDict [(py ''a'', JInt 1), (py ''b'', JInt 2)])
   \<and> [(py ''a'', JInt 1), (py ''b'', JInt 2)] \<noteq> []
   \<and> (\<exists>dss. split_chunks 17 (JDict [(py ''a'', JInt 1), (py ''b'', JInt 2)]) = Inr (map JDict dss)
         \<and> list_all (\<lambda>c. c \<noteq> []) dss)
   \<and> split_chunks 8 (JList [JInt 1, JInt 2, JStr (py ''abcdefgh'')])
     = Inr [JList [JInt 1, JInt 2], JList [JStr (py ''abcdefgh'')]]
   \<and> split_chunks 17 (JDict [(py ''a'', JInt 1), (py ''b'', JInt 2)])
     = Inr [JDict [(py ''a'', JInt 1)], JDict [(py ''b'', JInt 2)]]"
proof -
  have r1: "split_chunks 8 (JList [JInt 1, JInt 2, JStr (py ''abcdefgh'')])
     = Inr [JList [JInt 1, JInt 2], JList [JStr (py ''abcdefgh'')]]"
    by (simp add: ev)
  have r2: "split_chunks 17 (JDict [(py ''a'', JInt 1), (py ''b'', JInt 2)])
     = Inr [JDict [(py ''a'', JInt 1)], JDict [(py ''b'', JInt 2)]]"
    by (simp add: ev)
  have h1: "list_all json_encodable [JInt 1, JInt 2, JStr (py ''abcdefgh'')]"
    by (simp add: ev)
  have h2: "distinct (map fst [(py ''a'', JInt 1), (py ''b'', JInt 2)])
      \<and> json_encodable (JDict [(py ''a'', JInt 1), (py ''b'', JInt 2)])
      \<and> [(py ''a'', JInt 1), (py ''b'', JInt 2)] \<noteq> []"
    by (simp add: ev)
  from h1 h2 r1 r2
    chunks_not_empty [of "[JInt 1, JInt 2, JStr (py ''abcdefgh'')]" 8
      "[(py ''a'', JInt 1), (py ''b'', JInt 2)]"]
    chunks_not_empty [of "[JInt 1, JInt 2, JStr (py ''abcdefgh'')]" 17
      "[(py ''a'', JInt 1), (py ''b'', JInt 2)]"]
  show ?thesis by blast
qed

text \<open>
  The claim as stated fails on the empty mapping with the budget of the script: the
  result is one chunk, and it is empty.
\<close>

theorem chunks_not_empty_counterexample:
  "split_chunks 81920 (JDict []) = Inr [JDict []]"
  by (simp add: ev)

end
